theory Spec2Isabelle
  imports Main
begin

section \<open>Strings of code points\<close>

text \<open>
  The program is Python 3: a \<open>str\<close> is a sequence of Unicode code points, and the
  separators it looks for (the em dash U+2014, the en dash U+2013, the no-break space
  U+00A0) lie outside one byte. A string is therefore a list of code points, each a
  natural number; \<open>ascii\<close> embeds a literal of the source.
\<close>

type_synonym ustring = "nat list"

definition ascii :: "string \<Rightarrow> ustring" where
  "ascii s = map of_char s"

definition em_dash :: nat where
  "em_dash = 8212"

definition en_dash :: nat where
  "en_dash = 8211"

definition nbsp :: nat where
  "nbsp = 160"

definition dot :: nat where
  "dot = 46"

definition newline :: nat where
  "newline = 10"

text \<open>
  \<open>str.isspace\<close>, \<open>str.strip()\<close> and the pattern \<open>\s\<close> of a \<open>str\<close> pattern all read
  the same table of the interpreter (\<open>Py_UNICODE_ISSPACE\<close>), written out here.
\<close>

definition isspace :: "nat \<Rightarrow> bool" where
  "isspace c \<longleftrightarrow>
     (9 \<le> c \<and> c \<le> 13) \<or> (28 \<le> c \<and> c \<le> 32) \<or> c = 133 \<or> c = 160 \<or> c = 5760 \<or>
     (8192 \<le> c \<and> c \<le> 8202) \<or> c = 8232 \<or> c = 8233 \<or> c = 8239 \<or> c = 8287 \<or> c = 12288"

text \<open>
  The pattern \<open>\d\<close> of a \<open>str\<close> pattern is the Unicode category Nd
  (\<open>Py_UNICODE_ISDECIMAL\<close>): 66 runs of ten digits in Unicode 14, each given by the
  code point of its zero.
\<close>

definition decimal_zeros :: "nat list" where
  "decimal_zeros =
     [48, 1632, 1776, 1984, 2406, 2534, 2662, 2790, 2918, 3046, 3174, 3302, 3430, 3558,
      3664, 3792, 3872, 4160, 4240, 6112, 6160, 6470, 6608, 6784, 6800, 6992, 7088, 7232,
      7248, 42528, 43216, 43264, 43472, 43504, 43600, 44016, 65296, 66720, 68912, 69734,
      69872, 69942, 70096, 70384, 70736, 70864, 71248, 71360, 71472, 71904, 72016, 72784,
      73040, 73120, 92768, 92864, 93008, 120782, 120792, 120802, 120812, 120822, 123200,
      123632, 125264, 130032]"

definition isdecimal :: "nat \<Rightarrow> bool" where
  "isdecimal c = list_ex (\<lambda>z. z \<le> c \<and> c < z + 10) decimal_zeros"

text \<open>
  \<open>str.lower()\<close>. The program compares the lowered line with the ASCII literals
  \<open>"chapter"\<close> and \<open>"sec"\<close> only, so the table is written out for every code point whose
  lower-case form holds an ASCII character (A to Z, U+0130 and the Kelvin sign U+212A);
  any other code point lowers to non-ASCII characters and is left as it is.
\<close>

definition lower_char :: "nat \<Rightarrow> ustring" where
  "lower_char c =
     (if 65 \<le> c \<and> c \<le> 90 then [c + 32]
      else if c = 304 then [105, 775]
      else if c = 8490 then [107]
      else [c])"

definition lower :: "ustring \<Rightarrow> ustring" where
  "lower s = concat (map lower_char s)"

fun startswith :: "ustring \<Rightarrow> ustring \<Rightarrow> bool" where
  "startswith s [] = True"
| "startswith [] (p # ps) = False"
| "startswith (c # cs) (p # ps) = (c = p \<and> startswith cs ps)"

text \<open>\<open>str.find\<close>: the first index of the substring, \<open>None\<close> for Python's \<open>-1\<close>.\<close>

fun str_find :: "ustring \<Rightarrow> ustring \<Rightarrow> nat option" where
  "str_find [] sub = (if sub = [] then Some 0 else None)"
| "str_find (c # cs) sub =
     (if startswith (c # cs) sub then Some 0 else map_option Suc (str_find cs sub))"

definition contains :: "ustring \<Rightarrow> ustring \<Rightarrow> bool" where
  "contains s sub = (str_find s sub \<noteq> None)"

definition replace_chr :: "nat \<Rightarrow> nat \<Rightarrow> ustring \<Rightarrow> ustring" where
  "replace_chr a b s = map (\<lambda>c. if c = a then b else c) s"

definition rstrip :: "(nat \<Rightarrow> bool) \<Rightarrow> ustring \<Rightarrow> ustring" where
  "rstrip P s = rev (dropWhile P (rev s))"

definition strip :: "ustring \<Rightarrow> ustring" where
  "strip s = rstrip isspace (dropWhile isspace s)"

fun join :: "ustring \<Rightarrow> ustring list \<Rightarrow> ustring" where
  "join sep [] = []"
| "join sep [x] = x"
| "join sep (x # y # r) = x @ sep @ join sep (y # r)"

section \<open>The regular expressions\<close>

text \<open>
  Every pattern of the program is a sequence of single-character items: a literal or a
  class (\<open>\s\<close>, \<open>\d\<close>, \<open>.\<close>), once or under \<open>?\<close>, \<open>*\<close>, \<open>+\<close>, \<open>+?\<close>, the anchors, and the
  group parentheses. \<open>re_run\<close> is the backtracking matcher of \<open>re\<close> on such a sequence:
  a greedy item tries the longest repetition first, a lazy one the shortest, and the first
  complete match wins. \<open>Mark i\<close> records the position, as the matcher's mark array does:
  group \<open>g\<close> lies between marks \<open>2(g-1)\<close> and \<open>2(g-1)+1\<close>.
\<close>

datatype cclass = Lit nat | LitI nat | Space | Digit | Any

definition ascii_lower :: "nat \<Rightarrow> nat" where
  "ascii_lower c = (if 65 \<le> c \<and> c \<le> 90 then c + 32 else c)"

text \<open>
  \<open>LitI\<close> is an ASCII letter under \<open>re.IGNORECASE\<close>: both cases, and the non-ASCII
  letters the matcher folds onto i, k and s.
\<close>

fun cmatch :: "cclass \<Rightarrow> nat \<Rightarrow> bool" where
  "cmatch (Lit a) c = (c = a)"
| "cmatch (LitI a) c =
     (ascii_lower c = ascii_lower a \<or>
      (ascii_lower a = 105 \<and> (c = 304 \<or> c = 305)) \<or>
      (ascii_lower a = 107 \<and> c = 8490) \<or>
      (ascii_lower a = 115 \<and> c = 383))"
| "cmatch Space c = isspace c"
| "cmatch Digit c = isdecimal c"
| "cmatch Any c = (c \<noteq> newline)"

datatype item =
    Bol | Eol | Mark nat
  | One cclass | Opt cclass | Star cclass | Plus cclass | LazyStar cclass | LazyPlus cclass

type_synonym marks = "nat \<Rightarrow> nat option"

type_synonym mstate = "ustring \<times> nat \<times> marks"

fun re_run :: "item list \<Rightarrow> ustring \<Rightarrow> nat \<Rightarrow> marks \<Rightarrow> mstate option" where
  "re_run [] s n k = Some (s, n, k)"
| "re_run (Bol # r) s n k = (if n = 0 then re_run r s n k else None)"
| "re_run (Eol # r) s n k = (if s = [] \<or> s = [newline] then re_run r s n k else None)"
| "re_run (Mark i # r) s n k = re_run r s n (k(i \<mapsto> n))"
| "re_run (One c # r) s n k =
     (case s of [] \<Rightarrow> None
      | x # xs \<Rightarrow> if cmatch c x then re_run r xs (n + 1) k else None)"
| "re_run (Opt c # r) s n k =
     (case s of [] \<Rightarrow> re_run r s n k
      | x # xs \<Rightarrow>
          if cmatch c x
          then (case re_run r xs (n + 1) k of Some res \<Rightarrow> Some res | None \<Rightarrow> re_run r s n k)
          else re_run r s n k)"
| "re_run (Star c # r) s n k =
     (case s of [] \<Rightarrow> re_run r s n k
      | x # xs \<Rightarrow>
          if cmatch c x
          then (case re_run (Star c # r) xs (n + 1) k of
                  Some res \<Rightarrow> Some res | None \<Rightarrow> re_run r s n k)
          else re_run r s n k)"
| "re_run (Plus c # r) s n k =
     (case s of [] \<Rightarrow> None
      | x # xs \<Rightarrow> if cmatch c x then re_run (Star c # r) xs (n + 1) k else None)"
| "re_run (LazyStar c # r) s n k =
     (case re_run r s n k of
        Some res \<Rightarrow> Some res
      | None \<Rightarrow>
          (case s of [] \<Rightarrow> None
           | x # xs \<Rightarrow> if cmatch c x then re_run (LazyStar c # r) xs (n + 1) k else None))"
| "re_run (LazyPlus c # r) s n k =
     (case s of [] \<Rightarrow> None
      | x # xs \<Rightarrow> if cmatch c x then re_run (LazyStar c # r) xs (n + 1) k else None)"

text \<open>\<open>re.match\<close>: a match that starts at position 0.\<close>

definition re_match :: "item list \<Rightarrow> ustring \<Rightarrow> marks option" where
  "re_match p s = map_option (\<lambda>(rest, n, k). k) (re_run p s 0 Map.empty)"

text \<open>\<open>re.search\<close>: the match at the first start position that has one.\<close>

fun search_from :: "item list \<Rightarrow> ustring \<Rightarrow> nat \<Rightarrow> marks option" where
  "search_from p [] n = map_option (\<lambda>(rest, n, k). k) (re_run p [] n Map.empty)"
| "search_from p (x # xs) n =
     (case re_run p (x # xs) n Map.empty of
        Some (rest, n', k) \<Rightarrow> Some k
      | None \<Rightarrow> search_from p xs (n + 1))"

definition re_search :: "item list \<Rightarrow> ustring \<Rightarrow> marks option" where
  "re_search p s = search_from p s 0"

text \<open>\<open>m.group(g)\<close> of a match on the subject \<open>s\<close>.\<close>

definition mgroup :: "ustring \<Rightarrow> marks \<Rightarrow> nat \<Rightarrow> ustring" where
  "mgroup s k g =
     (case (k (2 * (g - 1)), k (2 * (g - 1) + 1)) of
        (Some a, Some b) \<Rightarrow> take (b - a) (drop a s)
      | _ \<Rightarrow> [])"

definition lits_i :: "string \<Rightarrow> item list" where
  "lits_i s = map (\<lambda>c. One (LitI (of_char c))) s"

definition RE_TITLE_LINE_MIN :: "item list" where
  "RE_TITLE_LINE_MIN =
     [Bol] @ lits_i ''TITLE'' @
     [Plus Space, Mark 0, Plus Digit, Mark 1, One (Lit dot), Star Space, One (Lit em_dash),
      Star Space, Mark 2, LazyPlus Any, Mark 3, Star Space, Eol]"

definition RE_CHAPTER_HEAD :: "item list" where
  "RE_CHAPTER_HEAD =
     [Bol] @ lits_i ''Chapter'' @
     [Plus Space, Mark 0, Plus Digit, Mark 1, Opt (Lit dot), Star Space, One (Lit em_dash),
      Star Space, Mark 2, LazyPlus Any, Mark 3, Opt (Lit dot), Star Space, Eol]"

definition RE_SECTION_INLINE :: "item list" where
  "RE_SECTION_INLINE =
     [Bol, Mark 0, Plus Digit, Mark 1, One (Lit dot), Star Space, Mark 2, LazyPlus Any, Mark 3,
      Star Space, One (Lit em_dash), Star Space, Mark 4, Plus Any, Mark 5, Eol]"

definition RE_SECTION_HEADER :: "item list" where
  "RE_SECTION_HEADER = [Bol, Mark 0, Plus Digit, Mark 1, One (Lit dot), One Space]"

text \<open>The pattern compiled in the loop for a section whose body follows on later lines.\<close>

definition RE_SECTION_START :: "item list" where
  "RE_SECTION_START =
     [Bol, Mark 0, Plus Digit, Mark 1, One (Lit dot), Star Space, Mark 2, LazyPlus Any, Mark 3,
      Star Space, One (Lit em_dash), Star Space, Mark 4, Star Any, Mark 5, Eol]"

text \<open>The pattern searched in the file name.\<close>

definition RE_FILENAME_TITLE :: "item list" where
  "RE_FILENAME_TITLE = lits_i ''Title'' @ [Plus Space, Mark 0, Plus Digit, Mark 1]"

definition groups2 :: "ustring \<Rightarrow> marks \<Rightarrow> ustring \<times> ustring" where
  "groups2 s k = (mgroup s k 1, mgroup s k 2)"

definition groups3 :: "ustring \<Rightarrow> marks \<Rightarrow> ustring \<times> ustring \<times> ustring" where
  "groups3 s k = (mgroup s k 1, mgroup s k 2, mgroup s k 3)"

definition title_line_match :: "ustring \<Rightarrow> (ustring \<times> ustring) option" where
  "title_line_match line = map_option (groups2 line) (re_match RE_TITLE_LINE_MIN line)"

definition chapter_head_match :: "ustring \<Rightarrow> (ustring \<times> ustring) option" where
  "chapter_head_match line = map_option (groups2 line) (re_match RE_CHAPTER_HEAD line)"

definition section_inline_match :: "ustring \<Rightarrow> (ustring \<times> ustring \<times> ustring) option" where
  "section_inline_match line = map_option (groups3 line) (re_match RE_SECTION_INLINE line)"

definition section_start_match :: "ustring \<Rightarrow> (ustring \<times> ustring \<times> ustring) option" where
  "section_start_match line = map_option (groups3 line) (re_match RE_SECTION_START line)"

definition section_header_match :: "ustring \<Rightarrow> bool" where
  "section_header_match line = (re_match RE_SECTION_HEADER line \<noteq> None)"

definition filename_title_search :: "ustring \<Rightarrow> ustring option" where
  "filename_title_search stem =
     map_option (\<lambda>k. mgroup stem k 1) (re_search RE_FILENAME_TITLE stem)"

section \<open>Paragraph extraction and the line normalizer\<close>

text \<open>
  The document container is outside the model: a document is the list of its paragraphs,
  a paragraph the list of texts of its runs, \<open>None\<close> for a run with no text.
  \<open>iter_docx_paragraph_text\<close> yields, for each paragraph with at least one non-empty
  run, the joined text with no-break spaces replaced and the ends stripped.
\<close>

type_synonym docx = "ustring option list list"

definition run_texts :: "ustring option list \<Rightarrow> ustring list" where
  "run_texts p = filter (\<lambda>t. t \<noteq> []) (List.map_filter id p)"

definition iter_docx_paragraph_text :: "docx \<Rightarrow> ustring list" where
  "iter_docx_paragraph_text doc =
     map (\<lambda>texts. strip (replace_chr nbsp 32 (concat texts)))
       (filter (\<lambda>texts. texts \<noteq> []) (map run_texts doc))"

text \<open>
  \<open>re.sub(r"\s+", " ", s)\<close>: every maximal run of whitespace becomes one space.
\<close>

function sub_ws :: "ustring \<Rightarrow> ustring" where
  "sub_ws [] = []"
| "sub_ws (c # cs) =
     (if isspace c then 32 # sub_ws (dropWhile isspace cs) else c # sub_ws cs)"
  by pat_completeness auto
termination
  by (relation "measure length") (auto simp: le_imp_less_Suc length_dropWhile_le)

definition normalize :: "ustring \<Rightarrow> ustring" where
  "normalize s = strip (sub_ws (replace_chr en_dash em_dash s))"

section \<open>The title\<close>

text \<open>
  The loop of \<open>build_title_name\<close> over the paragraphs stops at the first line that
  matches the title pattern and yields the number and the display name.
\<close>

definition is_space_or_dot :: "nat \<Rightarrow> bool" where
  "is_space_or_dot c = (c = 32 \<or> c = dot)"

definition title_display_of :: "ustring \<Rightarrow> ustring \<Rightarrow> ustring" where
  "title_display_of title_num title_text =
     (let title_text' =
        (case str_find title_text (ascii ''Chapter'') of
           Some at \<Rightarrow> rstrip is_space_or_dot (take at title_text)
         | None \<Rightarrow> title_text)
      in ascii ''TITLE '' @ title_num @ [dot, em_dash] @ strip title_text')"

fun first_title_line :: "ustring list \<Rightarrow> (ustring \<times> ustring) option" where
  "first_title_line [] = None"
| "first_title_line (p # ps) =
     (case title_line_match p of
        Some (title_num, title_text) \<Rightarrow> Some (title_num, title_display_of title_num title_text)
      | None \<Rightarrow> first_title_line ps)"

definition filename_fallback :: "ustring \<Rightarrow> ustring \<times> ustring" where
  "filename_fallback stem =
     (let title_num = (case filename_title_search stem of Some d \<Rightarrow> d | None \<Rightarrow> ascii ''?'')
      in (title_num, ascii ''TITLE '' @ title_num @ [dot, em_dash]))"

definition build_title_name :: "ustring \<Rightarrow> ustring list \<Rightarrow> ustring \<times> ustring" where
  "build_title_name stem paragraphs =
     (case first_title_line paragraphs of
        Some (title_num, title_display) \<Rightarrow>
          if title_display = [] then filename_fallback stem else (title_num, title_display)
      | None \<Rightarrow> filename_fallback stem)"

section \<open>The tree and its builder\<close>

record sect =
  sec_name :: ustring
  sec_body :: ustring

record chap =
  ch_name :: ustring
  ch_sections :: "sect list"

text \<open>
  The chapters appended to the Title element so far, and \<open>current_chapter\<close>: the index of
  the chapter the closure variable points to, \<open>None\<close> before the first one.
\<close>

record builder =
  chapters :: "chap list"
  current_chapter :: "nat option"

definition is_dot :: "nat \<Rightarrow> bool" where
  "is_dot c = (c = dot)"

definition chapter_name :: "ustring \<Rightarrow> ustring \<Rightarrow> ustring" where
  "chapter_name num name =
     ascii ''Chapter '' @ num @ [dot, em_dash] @ rstrip is_dot (strip name) @ [dot]"

definition start_chapter :: "builder \<Rightarrow> ustring \<Rightarrow> ustring \<Rightarrow> builder" where
  "start_chapter b num name =
     \<lparr>chapters = chapters b @ [\<lparr>ch_name = chapter_name num name, ch_sections = []\<rparr>],
      current_chapter = Some (length (chapters b))\<rparr>"

definition append_section :: "sect \<Rightarrow> chap \<Rightarrow> chap" where
  "append_section s c = c\<lparr>ch_sections := ch_sections c @ [s]\<rparr>"

definition add_section :: "builder \<Rightarrow> ustring \<Rightarrow> ustring \<Rightarrow> ustring \<Rightarrow> builder" where
  "add_section b num title body =
     (let b' = (if current_chapter b = None
                then start_chapter b (ascii ''0'') (ascii ''UNSPECIFIED'') else b);
          s = \<lparr>sec_name = num @ ascii ''. '' @ strip title, sec_body = strip body\<rparr>
      in case current_chapter b' of
           Some c \<Rightarrow> b'\<lparr>chapters := (chapters b')[c := append_section s (chapters b' ! c)]\<rparr>
         | None \<Rightarrow> b')"

section \<open>The parser\<close>

definition toc_line :: "ustring \<Rightarrow> bool" where
  "toc_line line \<longleftrightarrow>
     startswith (lower line) (ascii ''chapter'') \<and> contains (lower line) (ascii ''sec'') \<and>
     chapter_head_match line = None"

text \<open>The first loop: skip everything before the first chapter header.\<close>

function skip_preamble :: "ustring list \<Rightarrow> nat \<Rightarrow> nat" where
  "skip_preamble paras i =
     (if i < length paras
      then (let line = paras ! i
            in if toc_line line then skip_preamble paras (i + 1)
               else if chapter_head_match line \<noteq> None then i
               else skip_preamble paras (i + 1))
      else i)"
  by pat_completeness auto
termination
  by (relation "measure (\<lambda>(paras, i). length paras - i)") auto

definition body_stop :: "ustring \<Rightarrow> bool" where
  "body_stop nxt \<longleftrightarrow>
     chapter_head_match nxt \<noteq> None \<or> section_inline_match nxt \<noteq> None \<or>
     section_header_match nxt"

text \<open>The inner loop: the lines of a section body, from \<open>j\<close> to the next stop line.\<close>

function scan_body :: "ustring list \<Rightarrow> nat \<Rightarrow> ustring list \<Rightarrow> nat \<times> ustring list" where
  "scan_body paras j body_lines =
     (if j < length paras
      then (let nxt = paras ! j
            in if body_stop nxt then (j, body_lines)
               else scan_body paras (j + 1) (body_lines @ [nxt]))
      else (j, body_lines))"
  by pat_completeness auto
termination
  by (relation "measure (\<lambda>(paras, j, body_lines). length paras - j)") auto

text \<open>One iteration of the second loop at the line \<open>i\<close>: the next cursor and the builder.\<close>

definition parse_step :: "ustring list \<Rightarrow> nat \<times> builder \<Rightarrow> nat \<times> builder" where
  "parse_step paras st =
     (case st of (i, b) \<Rightarrow>
        (let line = paras ! i in
         (case chapter_head_match line of
            Some (num, name) \<Rightarrow> (i + 1, start_chapter b num name)
          | None \<Rightarrow>
             (case section_inline_match line of
                Some (num, title, body) \<Rightarrow> (i + 1, add_section b num title body)
              | None \<Rightarrow>
                 (case section_start_match line of
                    Some (num, sec_title, first_body) \<Rightarrow>
                      (case scan_body paras (i + 1) (if first_body \<noteq> [] then [first_body] else []) of
                         (j, body_lines) \<Rightarrow>
                           (j, add_section b num sec_title (join [newline] body_lines)))
                  | None \<Rightarrow> (i + 1, b))))))"

lemma scan_body_cursor: "j \<le> fst (scan_body paras j body_lines)"
proof (induction paras j body_lines rule: scan_body.induct)
  case (1 paras j body_lines)
  show ?case
  proof (cases "j < length paras \<and> \<not> body_stop (paras ! j)")
    case True
    then have "Suc j \<le> fst (scan_body paras (j + 1) (body_lines @ [paras ! j]))"
      using "1.IH" by simp
    with True show ?thesis by (subst scan_body.simps) (simp add: Let_def)
  next
    case False
    then show ?thesis by (subst scan_body.simps) (auto simp: Let_def)
  qed
qed

lemma parse_step_cursor: "i < fst (parse_step paras (i, b))"
proof (cases "chapter_head_match (paras ! i)")
  case (Some a)
  then show ?thesis by (cases a) (simp add: parse_step_def)
next
  case None
  note ch = None
  show ?thesis
  proof (cases "section_inline_match (paras ! i)")
    case (Some a)
    with ch show ?thesis by (cases a) (simp add: parse_step_def)
  next
    case None
    note inl = None
    show ?thesis
    proof (cases "section_start_match (paras ! i)")
      case None
      with ch inl show ?thesis by (simp add: parse_step_def)
    next
      case (Some a)
      obtain num sec_title first_body where a: "a = (num, sec_title, first_body)"
        by (cases a) auto
      obtain j body_lines where
        sc: "scan_body paras (i + 1) (if first_body \<noteq> [] then [first_body] else []) = (j, body_lines)"
        by (cases "scan_body paras (i + 1) (if first_body \<noteq> [] then [first_body] else [])") auto
      have "i + 1 \<le> j"
        using scan_body_cursor [of "i + 1" paras "if first_body \<noteq> [] then [first_body] else []"]
        by (simp only: sc fst_conv)
      with ch inl Some a sc show ?thesis by (simp add: parse_step_def)
    qed
  qed
qed

function parse_loop :: "ustring list \<Rightarrow> nat \<times> builder \<Rightarrow> builder" where
  "parse_loop paras st =
     (if fst st < length paras then parse_loop paras (parse_step paras st) else snd st)"
  by pat_completeness auto
termination parse_loop
proof (relation "measure (\<lambda>(paras, st). length paras - fst st)")
  show "wf (measure (\<lambda>(paras, st). length paras - fst st))" by simp
next
  fix paras :: "ustring list" and st :: "nat \<times> builder"
  assume "fst st < length paras"
  moreover have "fst st < fst (parse_step paras st)"
    using parse_step_cursor [of "fst st" paras "snd st"] by simp
  ultimately show "((paras, parse_step paras st), (paras, st))
      \<in> measure (\<lambda>(paras, st). length paras - fst st)"
    by simp
qed

record tree =
  title_name :: ustring
  title_chapters :: "chap list"

definition paras_of :: "docx \<Rightarrow> ustring list" where
  "paras_of doc = map normalize (filter (\<lambda>p. strip p \<noteq> []) (iter_docx_paragraph_text doc))"

definition parse_paras :: "ustring list \<Rightarrow> chap list" where
  "parse_paras paras =
     chapters (parse_loop paras (skip_preamble paras 0, \<lparr>chapters = [], current_chapter = None\<rparr>))"

definition to_xml_tree :: "ustring \<Rightarrow> docx \<Rightarrow> tree \<times> ustring" where
  "to_xml_tree stem doc =
     (let paras = paras_of doc;
          (title_num, title_display) = build_title_name stem paras
      in (\<lparr>title_name = title_display, title_chapters = parse_paras paras\<rparr>, title_num))"

section \<open>Auxiliary notions\<close>

text \<open>
  A string in which every whitespace character is a single space that no whitespace
  follows: the shape \<open>sub_ws\<close> produces.
\<close>

fun ws_ok :: "ustring \<Rightarrow> bool" where
  "ws_ok [] = True"
| "ws_ok (c # cs) =
     ((isspace c \<longrightarrow> c = 32 \<and> (case cs of [] \<Rightarrow> True | d # ds \<Rightarrow> \<not> isspace d)) \<and> ws_ok cs)"

text \<open>The builder points to a chapter it holds: what every call of \<open>start_chapter\<close> leaves.\<close>

definition builder_ok :: "builder \<Rightarrow> bool" where
  "builder_ok b = (case current_chapter b of Some c \<Rightarrow> c < length (chapters b) | None \<Rightarrow> False)"

text \<open>The stored names of the chapter headers among the lines, in order.\<close>

definition heads :: "ustring list \<Rightarrow> ustring list" where
  "heads ps = map (\<lambda>(num, name). chapter_name num name) (List.map_filter chapter_head_match ps)"

text \<open>
  Every complete match of a pattern, in the order in which the backtracking matcher
  would try them: \<open>re_run\<close> returns the first.
\<close>

fun re_all :: "item list \<Rightarrow> ustring \<Rightarrow> nat \<Rightarrow> marks \<Rightarrow> mstate list" where
  "re_all [] s n k = [(s, n, k)]"
| "re_all (Bol # r) s n k = (if n = 0 then re_all r s n k else [])"
| "re_all (Eol # r) s n k = (if s = [] \<or> s = [newline] then re_all r s n k else [])"
| "re_all (Mark i # r) s n k = re_all r s n (k(i \<mapsto> n))"
| "re_all (One c # r) s n k =
     (case s of [] \<Rightarrow> []
      | x # xs \<Rightarrow> if cmatch c x then re_all r xs (n + 1) k else [])"
| "re_all (Opt c # r) s n k =
     (case s of [] \<Rightarrow> []
      | x # xs \<Rightarrow> if cmatch c x then re_all r xs (n + 1) k else []) @ re_all r s n k"
| "re_all (Star c # r) s n k =
     (case s of [] \<Rightarrow> []
      | x # xs \<Rightarrow> if cmatch c x then re_all (Star c # r) xs (n + 1) k else []) @
     re_all r s n k"
| "re_all (Plus c # r) s n k =
     (case s of [] \<Rightarrow> []
      | x # xs \<Rightarrow> if cmatch c x then re_all (Star c # r) xs (n + 1) k else [])"
| "re_all (LazyStar c # r) s n k =
     re_all r s n k @
     (case s of [] \<Rightarrow> []
      | x # xs \<Rightarrow> if cmatch c x then re_all (LazyStar c # r) xs (n + 1) k else [])"
| "re_all (LazyPlus c # r) s n k =
     (case s of [] \<Rightarrow> []
      | x # xs \<Rightarrow> if cmatch c x then re_all (LazyStar c # r) xs (n + 1) k else [])"

section \<open>Evaluation on concrete lines\<close>

declare skip_preamble.simps [simp del] scan_body.simps [simp del] parse_loop.simps [simp del]

lemmas re_eval =
  ascii_def lits_i_def RE_CHAPTER_HEAD_def RE_SECTION_INLINE_def RE_TITLE_LINE_MIN_def
  RE_SECTION_START_def RE_SECTION_HEADER_def RE_FILENAME_TITLE_def
  re_match_def re_search_def mgroup_def groups2_def groups3_def isspace_def em_dash_def
  en_dash_def nbsp_def dot_def newline_def isdecimal_def decimal_zeros_def ascii_lower_def
  chapter_head_match_def section_inline_match_def title_line_match_def
  section_start_match_def section_header_match_def filename_title_search_def

lemmas str_eval =
  strip_def rstrip_def replace_chr_def normalize_def lower_def lower_char_def contains_def
  is_dot_def is_space_or_dot_def

section \<open>Scenario A: a title, a chapter and an inline section\<close>

text \<open>
  Claim C5. The three paragraphs "TITLE 3.(em dash)The President", "Chapter 1.(em
  dash)Presidential Elections." and "101. Time of choosing electors(em dash) Electors shall
  be appointed..." give, whatever the file is called, the Title named by the first line,
  with exactly one Chapter named "Chapter 1.(em dash)Presidential Elections.", which holds
  exactly one Section named "101. Time of choosing electors" with the body "Electors shall
  be appointed...".
\<close>

theorem scenario_A:
  "to_xml_tree stem
     [[Some (ascii ''TITLE 3.'' @ [em_dash] @ ascii ''The President'')],
      [Some (ascii ''Chapter 1.'' @ [em_dash] @ ascii ''Presidential Elections.'')],
      [Some (ascii ''101. Time of choosing electors'' @ [em_dash] @
             ascii '' Electors shall be appointed...'')]] =
   (\<lparr>title_name = ascii ''TITLE 3.'' @ [em_dash] @ ascii ''The President'',
     title_chapters =
       [\<lparr>ch_name = ascii ''Chapter 1.'' @ [em_dash] @ ascii ''Presidential Elections.'',
         ch_sections =
           [\<lparr>sec_name = ascii ''101. Time of choosing electors'',
             sec_body = ascii ''Electors shall be appointed...''\<rparr>]\<rparr>]\<rparr>,
    ascii ''3'')"
proof -
  define l1 where "l1 = ascii ''TITLE 3.'' @ [em_dash] @ ascii ''The President''"
  define l2 where "l2 = ascii ''Chapter 1.'' @ [em_dash] @ ascii ''Presidential Elections.''"
  define l3 where "l3 = ascii ''101. Time of choosing electors'' @ [em_dash] @
             ascii '' Electors shall be appointed...''"
  have paras: "paras_of [[Some l1], [Some l2], [Some l3]] = [l1, l2, l3]"
    by (simp add: paras_of_def iter_docx_paragraph_text_def run_texts_def List.map_filter_def
        l1_def l2_def l3_def str_eval re_eval)
  have t1: "title_line_match l1 = Some (ascii ''3'', ascii ''The President'')"
    by (simp add: l1_def re_eval)
  have c1: "chapter_head_match l1 = None"
    by (simp add: l1_def re_eval)
  have toc1: "\<not> toc_line l1"
    by (simp add: toc_line_def l1_def str_eval re_eval)
  have c2: "chapter_head_match l2 = Some (ascii ''1'', ascii ''Presidential Elections'')"
    by (simp add: l2_def re_eval)
  have toc2: "\<not> toc_line l2"
    by (simp add: toc_line_def c2)
  have c3: "chapter_head_match l3 = None"
    by (simp add: l3_def re_eval)
  have s3: "section_inline_match l3 =
      Some (ascii ''101'', ascii ''Time of choosing electors'',
            ascii ''Electors shall be appointed...'')"
    by (simp add: l3_def re_eval)
  have title: "build_title_name stem [l1, l2, l3] = (ascii ''3'', l1)"
    by (simp add: build_title_name_def t1 title_display_of_def) (simp add: l1_def str_eval re_eval)
  have pre: "skip_preamble [l1, l2, l3] 0 = Suc 0"
    by (simp add: skip_preamble.simps [of _ 0] skip_preamble.simps [of _ "Suc 0"] toc1 toc2 c1 c2)
  have loop: "parse_loop [l1, l2, l3] (Suc 0, \<lparr>chapters = [], current_chapter = None\<rparr>) =
      \<lparr>chapters = [\<lparr>ch_name = l2, ch_sections =
           [\<lparr>sec_name = ascii ''101. Time of choosing electors'',
             sec_body = ascii ''Electors shall be appointed...''\<rparr>]\<rparr>],
        current_chapter = Some 0\<rparr>"
    apply (subst parse_loop.simps)
    apply (simp add: parse_step_def c2 start_chapter_def chapter_name_def)
    apply (subst parse_loop.simps)
    apply (simp add: parse_step_def c3 s3 add_section_def append_section_def)
    apply (subst parse_loop.simps)
    apply (simp add: l2_def str_eval re_eval)
    done
  show ?thesis
    unfolding l1_def [symmetric] l2_def [symmetric] l3_def [symmetric]
    by (simp add: to_xml_tree_def paras title parse_paras_def pre loop)
qed

section \<open>Facts about strip and the normalizer\<close>

lemma rstrip_prefix: "s = rstrip P s @ rev (takeWhile P (rev s))"
proof -
  have "rev (takeWhile P (rev s) @ dropWhile P (rev s)) = s"
    by (simp only: takeWhile_dropWhile_id rev_rev_ident)
  then have "rev (dropWhile P (rev s)) @ rev (takeWhile P (rev s)) = s"
    by (simp only: rev_append)
  then show ?thesis by (simp only: rstrip_def)
qed

lemma rstrip_idem: "rstrip P (rstrip P s) = rstrip P s"
  by (simp add: rstrip_def)

lemma set_rstrip: "set (rstrip P s) \<subseteq> set s"
proof -
  have "set (rstrip P s) \<subseteq> set (rstrip P s @ rev (takeWhile P (rev s)))" by simp
  then show ?thesis using rstrip_prefix [of s P] by simp
qed

lemma set_strip: "set (strip s) \<subseteq> set s"
  using set_rstrip [of isspace "dropWhile isspace s"] set_dropWhileD [of _ isspace s]
  by (auto simp: strip_def)

lemma rstrip_hd: "rstrip P s \<noteq> [] \<Longrightarrow> hd (rstrip P s) = hd s"
  using rstrip_prefix [of s P] by (metis hd_append2)

lemma rstrip_last: "rstrip P s \<noteq> [] \<Longrightarrow> \<not> P (last (rstrip P s))"
proof -
  assume "rstrip P s \<noteq> []"
  then have ne: "dropWhile P (rev s) \<noteq> []" by (simp add: rstrip_def)
  then have "\<not> P (hd (dropWhile P (rev s)))" by (rule hd_dropWhile)
  with ne show ?thesis by (simp add: rstrip_def last_rev)
qed

lemma rstrip_id: "s = [] \<or> \<not> P (last s) \<Longrightarrow> rstrip P s = s"
  by (cases "rev s") (auto simp: rstrip_def last_rev [symmetric] simp del: last_rev)

lemma strip_hd: "strip s \<noteq> [] \<Longrightarrow> \<not> isspace (hd (strip s))"
proof -
  assume ne: "strip s \<noteq> []"
  then have "hd (strip s) = hd (dropWhile isspace s)"
    unfolding strip_def by (rule rstrip_hd)
  moreover have "dropWhile isspace s \<noteq> []"
  proof
    assume "dropWhile isspace s = []"
    then have "strip s = []" by (simp only: strip_def rstrip_def rev.simps dropWhile.simps)
    with ne show False by simp
  qed
  ultimately show ?thesis using hd_dropWhile [of isspace s] by simp
qed

lemma strip_last: "strip s \<noteq> [] \<Longrightarrow> \<not> isspace (last (strip s))"
  unfolding strip_def by (rule rstrip_last)

lemma strip_id: "s = [] \<or> (\<not> isspace (hd s) \<and> \<not> isspace (last s)) \<Longrightarrow> strip s = s"
proof -
  assume a: "s = [] \<or> (\<not> isspace (hd s) \<and> \<not> isspace (last s))"
  then have "dropWhile isspace s = s" by (cases s) auto
  moreover have "rstrip isspace s = s" using a by (intro rstrip_id) auto
  ultimately show ?thesis by (simp add: strip_def)
qed

lemma strip_idem: "strip (strip s) = strip s"
  using strip_hd [of s] strip_last [of s] by (intro strip_id) auto

lemma strip_keeps: "x \<in> set s \<Longrightarrow> \<not> isspace x \<Longrightarrow> strip s \<noteq> []"
proof -
  assume x: "x \<in> set s" "\<not> isspace x"
  then have d: "dropWhile isspace s \<noteq> []" by (auto simp: dropWhile_eq_Nil_conv)
  have "x \<in> set (rev (dropWhile isspace s))"
    using x by (induction s) auto
  with x have "dropWhile isspace (rev (dropWhile isspace s)) \<noteq> []"
    by (auto simp: dropWhile_eq_Nil_conv simp del: set_rev)
  then show ?thesis by (simp add: strip_def rstrip_def)
qed

lemma strip_nonempty_char: "strip s \<noteq> [] \<Longrightarrow> \<exists>x \<in> set s. \<not> isspace x"
proof -
  assume ne: "strip s \<noteq> []"
  have "\<not> (\<forall>x \<in> set s. isspace x)"
  proof
    assume "\<forall>x \<in> set s. isspace x"
    then have "dropWhile isspace s = []" by simp
    then have "strip s = []" by (simp only: strip_def rstrip_def rev.simps dropWhile.simps)
    with ne show False by simp
  qed
  then show ?thesis by simp
qed

lemma isspace_32: "isspace 32"
  by (simp add: isspace_def)

lemma sub_ws_hd: "s \<noteq> [] \<Longrightarrow> \<not> isspace (hd s) \<Longrightarrow> sub_ws s = hd s # sub_ws (tl s)"
  by (cases s) auto

lemma ws_ok_sub_ws: "ws_ok (sub_ws s)"
proof (induction s rule: sub_ws.induct)
  case 1
  show ?case by simp
next
  case (2 c cs)
  show ?case
  proof (cases "isspace c")
    case True
    have "case sub_ws (dropWhile isspace cs) of [] \<Rightarrow> True | d # ds \<Rightarrow> \<not> isspace d"
    proof (cases "dropWhile isspace cs")
      case Nil
      then have "sub_ws (dropWhile isspace cs) = []" by (simp only: sub_ws.simps)
      then show ?thesis by (simp only: list.case)
    next
      case (Cons d ds)
      then have "\<not> isspace d" using hd_dropWhile [of isspace cs] by simp
      with Cons have "sub_ws (dropWhile isspace cs) = d # sub_ws ds"
        by (simp only: sub_ws.simps if_False)
      with \<open>\<not> isspace d\<close> show ?thesis by simp
    qed
    with True 2 show ?thesis by simp
  next
    case False
    with 2 show ?thesis by simp
  qed
qed

lemma sub_ws_id: "ws_ok s \<Longrightarrow> sub_ws s = s"
proof (induction s rule: sub_ws.induct)
  case 1
  show ?case by simp
next
  case (2 c cs)
  show ?case
  proof (cases "isspace c")
    case True
    with "2.prems" have c: "c = 32" and ok: "ws_ok cs"
      and h: "case cs of [] \<Rightarrow> True | d # ds \<Rightarrow> \<not> isspace d" by auto
    from h have "dropWhile isspace cs = cs" by (cases cs) auto
    with True c ok "2.IH"(1) show ?thesis by simp
  next
    case False
    with 2 show ?thesis by simp
  qed
qed

lemma ws_ok_dropWhile: "ws_ok s \<Longrightarrow> ws_ok (dropWhile P s)"
  by (induction s) auto

lemma ws_ok_prefix: "ws_ok (xs @ ys) \<Longrightarrow> ws_ok xs"
proof (induction xs)
  case Nil
  show ?case by simp
next
  case (Cons x xs)
  then show ?case by (cases xs) auto
qed

lemma ws_ok_strip: "ws_ok s \<Longrightarrow> ws_ok (strip s)"
proof -
  assume "ws_ok s"
  then have "ws_ok (dropWhile isspace s)" by (rule ws_ok_dropWhile)
  then have "ws_ok (rstrip isspace (dropWhile isspace s) @
      rev (takeWhile isspace (rev (dropWhile isspace s))))"
    using rstrip_prefix [of "dropWhile isspace s" isspace] by simp
  then show ?thesis unfolding strip_def by (rule ws_ok_prefix)
qed

lemma set_sub_ws: "set (sub_ws s) \<subseteq> insert 32 (set s)"
proof (induction s rule: sub_ws.induct)
  case 1
  show ?case by simp
next
  case (2 c cs)
  then show ?case using set_dropWhileD [of _ isspace cs] by (cases "isspace c") auto
qed

lemma sub_ws_keeps: "x \<in> set s \<Longrightarrow> \<not> isspace x \<Longrightarrow> x \<in> set (sub_ws s)"
proof (induction s rule: sub_ws.induct)
  case 1
  then show ?case by simp
next
  case (2 c cs)
  show ?case
  proof (cases "isspace c")
    case True
    with "2.prems" have "x \<in> set cs" by auto
    with "2.prems" have "x \<in> set (dropWhile isspace cs)"
      by (induction cs) auto
    with True "2.IH"(1) "2.prems" show ?thesis by simp
  next
    case False
    with 2 show ?thesis by auto
  qed
qed

lemma no_en_dash: "en_dash \<notin> set (normalize s)"
proof -
  have "en_dash \<notin> set (replace_chr en_dash em_dash s)"
    by (auto simp: replace_chr_def en_dash_def em_dash_def)
  moreover have "en_dash \<noteq> 32" by (simp add: en_dash_def)
  ultimately have "en_dash \<notin> set (sub_ws (replace_chr en_dash em_dash s))"
    using set_sub_ws [of "replace_chr en_dash em_dash s"] by auto
  then show ?thesis
    using set_strip [of "sub_ws (replace_chr en_dash em_dash s)"] by (auto simp: normalize_def)
qed

lemma replace_chr_id: "a \<notin> set s \<Longrightarrow> replace_chr a b s = s"
  by (induction s) (auto simp: replace_chr_def)

section \<open>The normalizer is idempotent\<close>

text \<open>
  Claim C8. Normalizing a line that is already normalized returns it unchanged: for every
  string \<open>s\<close>, \<open>normalize (normalize s) = normalize s\<close>.
\<close>

theorem normalize_idempotent: "normalize (normalize s) = normalize s"
proof -
  have r: "replace_chr en_dash em_dash (normalize s) = normalize s"
    using no_en_dash by (rule replace_chr_id)
  have "ws_ok (normalize s)"
    unfolding normalize_def by (intro ws_ok_strip ws_ok_sub_ws)
  then have w: "sub_ws (normalize s) = normalize s" by (rule sub_ws_id)
  have "strip (normalize s) = normalize s"
    unfolding normalize_def by (rule strip_idem)
  with r w show ?thesis by (simp add: normalize_def [of "normalize s"])
qed

lemma normalize_nonempty: "strip p \<noteq> [] \<Longrightarrow> normalize p \<noteq> []"
proof -
  assume "strip p \<noteq> []"
  then obtain x where x: "x \<in> set p" "\<not> isspace x" using strip_nonempty_char by blast
  define y where "y = (if x = en_dash then em_dash else x)"
  have ys: "\<not> isspace y" using x by (auto simp: y_def isspace_def em_dash_def)
  have "y \<in> set (replace_chr en_dash em_dash p)"
    using x by (auto simp: replace_chr_def y_def)
  then have "y \<in> set (sub_ws (replace_chr en_dash em_dash p))"
    using ys by (rule sub_ws_keeps)
  then show ?thesis unfolding normalize_def using ys by (rule strip_keeps)
qed

section \<open>The title when no line declares it\<close>

lemma first_title_line_none:
  "\<forall>p \<in> set ps. title_line_match p = None \<Longrightarrow> first_title_line ps = None"
  by (induction ps) auto

lemma to_xml_tree_fallback:
  assumes "\<forall>p \<in> set (paras_of doc). title_line_match p = None"
  shows "to_xml_tree stem doc =
    (\<lparr>title_name = snd (filename_fallback stem), title_chapters = parse_paras (paras_of doc)\<rparr>,
     fst (filename_fallback stem))"
  using first_title_line_none [OF assms]
  by (simp add: to_xml_tree_def build_title_name_def Let_def split_beta)



text \<open>
  Claim C10. When no line of the input matches the title pattern and the file name holds
  no \<open>Title\s+(\d+)\<close> either, the parser still returns: the number of the Title is the
  string "?" and the display name is "TITLE ?.(em dash)".
\<close>

theorem title_unknown:
  assumes "\<forall>p \<in> set (paras_of doc). title_line_match p = None"
    and "filename_title_search stem = None"
  shows "snd (to_xml_tree stem doc) = ascii ''?'' \<and>
    title_name (fst (to_xml_tree stem doc)) = ascii ''TITLE ?.'' @ [em_dash]"
  using assms(2) by (simp add: to_xml_tree_fallback [OF assms(1)] filename_fallback_def ascii_def dot_def)

theorem title_unknown_witness:
  "snd (to_xml_tree (ascii ''notes'') [[Some (ascii ''Preface'')]]) = ascii ''?'' \<and>
   title_name (fst (to_xml_tree (ascii ''notes'') [[Some (ascii ''Preface'')]])) =
     ascii ''TITLE ?.'' @ [em_dash]"
proof -
  have p: "paras_of [[Some (ascii ''Preface'')]] = [ascii ''Preface'']"
    by (simp add: paras_of_def iter_docx_paragraph_text_def run_texts_def List.map_filter_def
        str_eval re_eval)
  have t: "title_line_match (ascii ''Preface'') = None"
    by (simp add: re_eval)
  have h: "\<forall>p \<in> set (paras_of [[Some (ascii ''Preface'')]]). title_line_match p = None"
    by (simp only: p) (simp add: t)
  have f: "filename_title_search (ascii ''notes'') = None"
    by (simp add: re_eval)
  show ?thesis
    using title_unknown [OF h f] by simp
qed

section \<open>The cursors only advance\<close>

lemma skip_preamble_cursor:
  "i \<le> skip_preamble paras i \<and> skip_preamble paras i \<le> max i (length paras)"
proof (induction paras i rule: skip_preamble.induct)
  case (1 paras i)
  show ?case
  proof (cases "i < length paras")
    case False
    then show ?thesis by (subst skip_preamble.simps, subst skip_preamble.simps) simp
  next
    case True
    note lt = True
    show ?thesis
    proof (cases "toc_line (paras ! i)")
      case True
      with lt "1.IH"(1) [OF lt refl True] show ?thesis
        by (subst skip_preamble.simps, subst skip_preamble.simps) (simp add: Let_def)
    next
      case False
      note nt = False
      show ?thesis
      proof (cases "chapter_head_match (paras ! i) \<noteq> None")
        case True
        with lt nt show ?thesis
          by (subst skip_preamble.simps, subst skip_preamble.simps) (auto simp: Let_def)
      next
        case False
        with lt nt "1.IH"(2) [OF lt refl nt False] show ?thesis
          by (subst skip_preamble.simps, subst skip_preamble.simps) (simp add: Let_def)
      qed
    qed
  qed
qed

lemma scan_body_bound: "fst (scan_body paras j body_lines) \<le> max j (length paras)"
proof (induction paras j body_lines rule: scan_body.induct)
  case (1 paras j body_lines)
  show ?case
  proof (cases "j < length paras \<and> \<not> body_stop (paras ! j)")
    case True
    then have "fst (scan_body paras (j + 1) (body_lines @ [paras ! j])) \<le> max (j + 1) (length paras)"
      using "1.IH" by simp
    with True show ?thesis by (subst scan_body.simps) (simp add: Let_def)
  next
    case False
    then show ?thesis by (subst scan_body.simps) (auto simp: Let_def)
  qed
qed

lemma parse_step_bound:
  assumes "i < length paras"
  shows "fst (parse_step paras (i, b)) \<le> length paras"
proof (cases "chapter_head_match (paras ! i)")
  case (Some a)
  with assms show ?thesis by (cases a) (simp add: parse_step_def)
next
  case None
  note ch = None
  show ?thesis
  proof (cases "section_inline_match (paras ! i)")
    case (Some a)
    with ch assms show ?thesis by (cases a) (simp add: parse_step_def)
  next
    case None
    note inl = None
    show ?thesis
    proof (cases "section_start_match (paras ! i)")
      case None
      with ch inl assms show ?thesis by (simp add: parse_step_def)
    next
      case (Some a)
      obtain num sec_title first_body where a: "a = (num, sec_title, first_body)"
        by (cases a) auto
      obtain j body_lines where
        sc: "scan_body paras (i + 1) (if first_body \<noteq> [] then [first_body] else []) = (j, body_lines)"
        by (cases "scan_body paras (i + 1) (if first_body \<noteq> [] then [first_body] else [])") auto
      have "j \<le> max (i + 1) (length paras)"
        using scan_body_bound [of paras "i + 1" "if first_body \<noteq> [] then [first_body] else []"]
        by (simp only: sc fst_conv)
      with assms have "j \<le> length paras" by simp
      with ch inl Some a sc show ?thesis by (simp add: parse_step_def)
    qed
  qed
qed

lemma parse_loop_iterates:
  "\<exists>n \<le> length paras - fst st.
     length paras \<le> fst ((parse_step paras ^^ n) st) \<and>
     parse_loop paras st = snd ((parse_step paras ^^ n) st)"
proof (induction "length paras - fst st" arbitrary: st rule: less_induct)
  case less
  show ?case
  proof (cases "fst st < length paras")
    case False
    then have "parse_loop paras st = snd st" by (subst parse_loop.simps) simp
    with False show ?thesis by (intro exI [of _ 0]) simp
  next
    case True
    obtain i b where st: "st = (i, b)" by (cases st)
    define st' where "st' = parse_step paras st"
    have up: "fst st < fst st'" and bd: "fst st' \<le> length paras"
      using parse_step_cursor [of i paras b] parse_step_bound [of i paras b] True
      by (simp_all add: st st'_def)
    then have "length paras - fst st' < length paras - fst st" using True by simp
    from less [OF this] obtain n where n: "n \<le> length paras - fst st'"
      "length paras \<le> fst ((parse_step paras ^^ n) st')"
      "parse_loop paras st' = snd ((parse_step paras ^^ n) st')" by blast
    have "parse_loop paras st = parse_loop paras st'"
      using True by (subst parse_loop.simps) (simp add: st'_def)
    with n up bd True show ?thesis
      by (intro exI [of _ "Suc n"]) (simp add: funpow_swap1 st'_def)
  qed
qed

text \<open>
  Claim C9. The parser terminates on every finite list of lines, in one forward pass.
  The preamble scan returns a cursor that is not before its start and not past the end.
  An iteration of the main loop at a line inside the input moves the cursor strictly
  forward and not past the end. The body scan, which the main loop starts at the line
  after the current one, returns a cursor that is not before its start and not past the
  end. So the main loop started at the cursor \<open>i\<close> leaves after at most
  \<open>length paras - i\<close> iterations, with the builder of the last one.
\<close>

theorem parser_terminates:
  "i \<le> skip_preamble paras i \<and> skip_preamble paras i \<le> max i (length paras) \<and>
   j \<le> fst (scan_body paras j body_lines) \<and>
   fst (scan_body paras j body_lines) \<le> max j (length paras) \<and>
   (i < length paras \<longrightarrow>
      i < fst (parse_step paras (i, b)) \<and> fst (parse_step paras (i, b)) \<le> length paras) \<and>
   (\<exists>n \<le> length paras - i.
      length paras \<le> fst ((parse_step paras ^^ n) (i, b)) \<and>
      parse_loop paras (i, b) = snd ((parse_step paras ^^ n) (i, b)))"
  using skip_preamble_cursor [of i paras] scan_body_cursor [of j paras body_lines]
    scan_body_bound [of paras j body_lines] parse_step_cursor [of i paras b]
    parse_step_bound [of i paras b] parse_loop_iterates [of paras "(i, b)"]
  by simp

theorem parser_terminates_witness:
  "0 < length [ascii ''Preface'', ascii ''1. A''] \<and>
   0 < fst (parse_step [ascii ''Preface'', ascii ''1. A'']
             (0, \<lparr>chapters = [], current_chapter = None\<rparr>)) \<and>
   fst (parse_step [ascii ''Preface'', ascii ''1. A'']
          (0, \<lparr>chapters = [], current_chapter = None\<rparr>)) \<le> 2 \<and>
   skip_preamble [ascii ''Preface'', ascii ''1. A''] 0 \<le> 2 \<and>
   (\<exists>n \<le> 2.
      parse_loop [ascii ''Preface'', ascii ''1. A'']
        (0, \<lparr>chapters = [], current_chapter = None\<rparr>) =
      snd ((parse_step [ascii ''Preface'', ascii ''1. A''] ^^ n)
             (0, \<lparr>chapters = [], current_chapter = None\<rparr>)))"
  using parser_terminates [of 0 "[ascii ''Preface'', ascii ''1. A'']" 0 "[]"
      "\<lparr>chapters = [], current_chapter = None\<rparr>"]
  by (simp add: numeral_2_eq_2) blast

section \<open>The loops as list functions\<close>

lemma scan_body_takeWhile:
  "scan_body paras j body_lines =
     (j + length (takeWhile (\<lambda>l. \<not> body_stop l) (drop j paras)),
      body_lines @ takeWhile (\<lambda>l. \<not> body_stop l) (drop j paras))"
proof (induction paras j body_lines rule: scan_body.induct)
  case (1 paras j body_lines)
  show ?case
  proof (cases "j < length paras")
    case False
    then show ?thesis by (subst scan_body.simps) simp
  next
    case True
    then have d: "drop j paras = paras ! j # drop (j + 1) paras"
      by (simp add: Cons_nth_drop_Suc)
    show ?thesis
    proof (cases "body_stop (paras ! j)")
      case True
      with \<open>j < length paras\<close> d show ?thesis by (subst scan_body.simps) simp
    next
      case False
      with \<open>j < length paras\<close> d "1.IH" [OF \<open>j < length paras\<close> refl False] show ?thesis
        by (subst scan_body.simps) simp
    qed
  qed
qed

lemma skip_preamble_dropWhile:
  "skip_preamble paras i =
     i + length (takeWhile (\<lambda>l. chapter_head_match l = None) (drop i paras))"
proof (induction paras i rule: skip_preamble.induct)
  case (1 paras i)
  show ?case
  proof (cases "i < length paras")
    case False
    then show ?thesis by (subst skip_preamble.simps) simp
  next
    case True
    note lt = True
    then have d: "drop i paras = paras ! i # drop (i + 1) paras"
      by (simp add: Cons_nth_drop_Suc)
    show ?thesis
    proof (cases "toc_line (paras ! i)")
      case True
      then have "chapter_head_match (paras ! i) = None" by (simp add: toc_line_def)
      with lt d True "1.IH"(1) [OF lt refl True] show ?thesis
        by (subst skip_preamble.simps) simp
    next
      case False
      note nt = False
      show ?thesis
      proof (cases "chapter_head_match (paras ! i) \<noteq> None")
        case True
        with lt nt d show ?thesis by (subst skip_preamble.simps) auto
      next
        case False
        with lt nt d "1.IH"(2) [OF lt refl nt False] show ?thesis
          by (subst skip_preamble.simps) simp
      qed
    qed
  qed
qed

section \<open>The chapters of the output\<close>

lemma heads_append: "heads (xs @ ys) = heads xs @ heads ys"
  by (simp add: heads_def List.map_filter_def)

lemma heads_none: "\<forall>l \<in> set xs. chapter_head_match l = None \<Longrightarrow> heads xs = []"
  by (induction xs) (auto simp: heads_def List.map_filter_def)

lemma heads_Cons_some:
  "chapter_head_match l = Some (num, name) \<Longrightarrow> heads (l # xs) = chapter_name num name # heads xs"
  by (simp add: heads_def List.map_filter_def)

lemma heads_Cons_none: "chapter_head_match l = None \<Longrightarrow> heads (l # xs) = heads xs"
  by (simp add: heads_def List.map_filter_def)

lemma heads_dropWhile:
  assumes "\<And>l. P l \<Longrightarrow> chapter_head_match l = None"
  shows "heads (drop (length (takeWhile P xs)) xs) = heads xs"
proof -
  have "heads xs = heads (takeWhile P xs @ dropWhile P xs)" by simp
  also have "\<dots> = heads (takeWhile P xs) @ heads (dropWhile P xs)" by (rule heads_append)
  also have "heads (takeWhile P xs) = []"
    using assms by (intro heads_none) (auto dest: set_takeWhileD)
  finally show ?thesis by (simp add: dropWhile_eq_drop)
qed

lemma start_chapter_names:
  "map ch_name (chapters (start_chapter b num name)) =
     map ch_name (chapters b) @ [chapter_name num name]"
  by (simp add: start_chapter_def)

lemma start_chapter_ok: "builder_ok (start_chapter b num name)"
  by (simp add: start_chapter_def builder_ok_def)

lemma add_section_chapters:
  assumes "current_chapter b = Some c" and "c < length (chapters b)"
  shows "add_section b num title body =
    b\<lparr>chapters := (chapters b)[c := append_section
         \<lparr>sec_name = num @ ascii ''. '' @ strip title, sec_body = strip body\<rparr> (chapters b ! c)]\<rparr>"
  using assms by (simp add: add_section_def Let_def)

lemma add_section_names:
  assumes "builder_ok b"
  shows "map ch_name (chapters (add_section b num title body)) = map ch_name (chapters b)"
proof -
  from assms obtain c where c: "current_chapter b = Some c" "c < length (chapters b)"
    by (auto simp: builder_ok_def split: option.splits)
  have "(map ch_name (chapters b))[c := ch_name (chapters b ! c)] = map ch_name (chapters b)"
    using c(2) by (simp add: list_update_same_conv)
  then show ?thesis
    by (simp add: add_section_chapters [OF c] map_update append_section_def)
qed

lemma add_section_ok:
  assumes "builder_ok b"
  shows "builder_ok (add_section b num title body)"
proof -
  from assms obtain c where c: "current_chapter b = Some c" "c < length (chapters b)"
    by (auto simp: builder_ok_def split: option.splits)
  show ?thesis
    using c by (simp add: add_section_chapters [OF c] builder_ok_def)
qed

lemma not_stop_not_head: "\<not> body_stop l \<Longrightarrow> chapter_head_match l = None"
  by (cases "chapter_head_match l") (simp_all add: body_stop_def)

lemma parse_step_names:
  assumes "i < length paras"
    and "builder_ok b \<or> chapter_head_match (paras ! i) \<noteq> None"
  shows "map ch_name (chapters (snd (parse_step paras (i, b)))) @
           heads (drop (fst (parse_step paras (i, b))) paras) =
         map ch_name (chapters b) @ heads (drop i paras) \<and>
         builder_ok (snd (parse_step paras (i, b)))"
proof -
  have d: "drop i paras = paras ! i # drop (i + 1) paras"
    using assms(1) by (simp add: Cons_nth_drop_Suc)
  show ?thesis
  proof (cases "chapter_head_match (paras ! i)")
    case (Some a)
    obtain num name where a: "a = (num, name)" by (cases a)
    show ?thesis
      using Some a d heads_Cons_some [of "paras ! i" num name "drop (i + 1) paras"]
      by (simp add: parse_step_def start_chapter_names start_chapter_ok)
  next
    case None
    note ch = None
    with assms(2) have ok: "builder_ok b" by simp
    have h: "heads (drop i paras) = heads (drop (i + 1) paras)"
      using d heads_Cons_none [OF ch] by simp
    show ?thesis
    proof (cases "section_inline_match (paras ! i)")
      case (Some a)
      obtain num title body where a: "a = (num, title, body)" by (cases a)
      show ?thesis
        using ch Some a h ok by (simp add: parse_step_def add_section_names add_section_ok)
    next
      case None
      note inl = None
      show ?thesis
      proof (cases "section_start_match (paras ! i)")
        case None
        with ch inl h ok show ?thesis by (simp add: parse_step_def)
      next
        case (Some a)
        obtain num sec_title first_body where a: "a = (num, sec_title, first_body)"
          by (cases a)
        have "heads (drop (length (takeWhile (\<lambda>l. \<not> body_stop l) (drop (i + 1) paras)))
                 (drop (i + 1) paras)) = heads (drop (i + 1) paras)"
          by (rule heads_dropWhile) (rule not_stop_not_head)
        then show ?thesis
          using ch inl Some a h ok
          by (simp add: parse_step_def scan_body_takeWhile add_section_names add_section_ok
              add.commute)
      qed
    qed
  qed
qed

lemma parse_loop_names:
  assumes "builder_ok b \<or> length paras \<le> i \<or> chapter_head_match (paras ! i) \<noteq> None"
  shows "map ch_name (chapters (parse_loop paras (i, b))) =
    map ch_name (chapters b) @ heads (drop i paras)"
  using assms
proof (induction "length paras - i" arbitrary: i b rule: less_induct)
  case less
  show ?case
  proof (cases "i < length paras")
    case False
    then show ?thesis by (subst parse_loop.simps) (simp add: heads_def List.map_filter_def)
  next
    case True
    obtain i' b' where st: "parse_step paras (i, b) = (i', b')"
      by (cases "parse_step paras (i, b)")
    have up: "i < i'" using parse_step_cursor [of i paras b] by (simp add: st)
    have "builder_ok b \<or> chapter_head_match (paras ! i) \<noteq> None"
      using less.prems True by auto
    from parse_step_names [OF True this]
    have n: "map ch_name (chapters b') @ heads (drop i' paras) =
        map ch_name (chapters b) @ heads (drop i paras)" and ok: "builder_ok b'"
      by (simp_all add: st)
    have "length paras - i' < length paras - i" using up True by simp
    from less.hyps [OF this, of b'] ok
    have "map ch_name (chapters (parse_loop paras (i', b'))) =
        map ch_name (chapters b') @ heads (drop i' paras)" by simp
    moreover have "parse_loop paras (i, b) = parse_loop paras (i', b')"
      using True by (subst parse_loop.simps) (simp add: st)
    ultimately show ?thesis using n by simp
  qed
qed

lemma skip_preamble_stops:
  "skip_preamble paras i < length paras \<Longrightarrow>
     chapter_head_match (paras ! skip_preamble paras i) \<noteq> None"
proof -
  let ?P = "\<lambda>l. chapter_head_match l = None"
  let ?k = "length (takeWhile ?P (drop i paras))"
  assume "skip_preamble paras i < length paras"
  then have lt: "i + ?k < length paras" by (simp add: skip_preamble_dropWhile)
  then have "?k < length (drop i paras)" by simp
  then have "\<not> ?P (drop i paras ! ?k)" by (rule nth_length_takeWhile)
  moreover have "drop i paras ! ?k = paras ! (i + ?k)" using lt by simp
  ultimately show ?thesis by (simp add: skip_preamble_dropWhile)
qed

lemma parse_paras_names: "map ch_name (parse_paras paras) = heads paras"
proof -
  let ?i = "skip_preamble paras 0"
  let ?b = "\<lparr>chapters = [], current_chapter = None\<rparr>"
  have "length paras \<le> ?i \<or> chapter_head_match (paras ! ?i) \<noteq> None"
    by (meson not_le_imp_less skip_preamble_stops)
  then have "map ch_name (chapters (parse_loop paras (?i, ?b))) =
      map ch_name (chapters ?b) @ heads (drop ?i paras)"
    by (intro parse_loop_names) simp
  moreover have "heads (drop ?i paras) = heads paras"
    using heads_dropWhile [of "\<lambda>l. chapter_head_match l = None" paras]
    by (simp add: skip_preamble_dropWhile)
  ultimately show ?thesis by (simp add: parse_paras_def)
qed

lemma chapter_name_one_period:
  "last (chapter_name num name) = dot \<and> last (butlast (chapter_name num name)) \<noteq> dot"
proof -
  let ?t = "rstrip is_dot (strip name)"
  have b: "butlast (chapter_name num name) = (ascii ''Chapter '' @ num @ [dot, em_dash]) @ ?t"
    by (simp add: chapter_name_def butlast_append)
  have "last ((ascii ''Chapter '' @ num @ [dot, em_dash]) @ ?t) \<noteq> dot"
  proof (cases "?t = []")
    case True
    then show ?thesis by (simp add: em_dash_def dot_def)
  next
    case False
    then have "\<not> is_dot (last ?t)" by (rule rstrip_last)
    with False show ?thesis by (simp add: is_dot_def)
  qed
  with b show ?thesis by (simp add: chapter_name_def)
qed

text \<open>
  Claim C3. The chapters of the output are, in order, the lines of the input that match
  the chapter-header pattern, each stored under the name "Chapter (num).(em dash)(text)."
  where num is the first group and text the second group without surrounding whitespace
  and trailing periods; whether or not the line ended in a period, the stored name ends in
  a period that no period precedes.
\<close>

theorem chapter_names_one_period:
  "map ch_name (title_chapters (fst (to_xml_tree stem doc))) =
     map (\<lambda>(num, name). chapter_name num name)
       (List.map_filter chapter_head_match (paras_of doc)) \<and>
   (chapter_head_match line = Some (num, name) \<longrightarrow>
      chapter_name num name =
        ascii ''Chapter '' @ num @ [dot, em_dash] @ rstrip is_dot (strip name) @ [dot] \<and>
      last (chapter_name num name) = dot \<and>
      last (butlast (chapter_name num name)) \<noteq> dot)"
  using parse_paras_names [of "paras_of doc"] chapter_name_one_period [of num name]
  by (simp add: to_xml_tree_def Let_def split_beta heads_def chapter_name_def)

theorem chapter_names_one_period_witness:
  "chapter_head_match (ascii ''Chapter 2'' @ [em_dash] @ ascii ''General Provisions'') =
     Some (ascii ''2'', ascii ''General Provisions'') \<and>
   map ch_name (title_chapters (fst (to_xml_tree (ascii ''Title 5'')
     [[Some (ascii ''Chapter 2'' @ [em_dash] @ ascii ''General Provisions'')]]))) =
     [ascii ''Chapter 2.'' @ [em_dash] @ ascii ''General Provisions.''] \<and>
   last (chapter_name (ascii ''2'') (ascii ''General Provisions'')) = dot \<and>
   last (butlast (chapter_name (ascii ''2'') (ascii ''General Provisions''))) \<noteq> dot"
proof -
  define l where "l = ascii ''Chapter 2'' @ [em_dash] @ ascii ''General Provisions''"
  have p: "paras_of [[Some l]] = [l]"
    by (simp add: paras_of_def iter_docx_paragraph_text_def run_texts_def List.map_filter_def
        l_def str_eval re_eval)
  have c: "chapter_head_match l = Some (ascii ''2'', ascii ''General Provisions'')"
    by (simp add: l_def re_eval)
  have n: "chapter_name (ascii ''2'') (ascii ''General Provisions'') =
      ascii ''Chapter 2.'' @ [em_dash] @ ascii ''General Provisions.''"
    by (simp add: chapter_name_def str_eval re_eval)
  note t = chapter_names_one_period [of "ascii ''Title 5''" "[[Some l]]" l "ascii ''2''"
      "ascii ''General Provisions''"]
  have a: "map ch_name (title_chapters (fst (to_xml_tree (ascii ''Title 5'') [[Some l]]))) =
      map (\<lambda>(num, name). chapter_name num name) (List.map_filter chapter_head_match [l])"
    using t [THEN conjunct1] by (simp only: p)
  note bd = mp [OF t [THEN conjunct2] c]
  note b = bd [THEN conjunct2, THEN conjunct1]
  note d = bd [THEN conjunct2, THEN conjunct2]
  have a': "map ch_name (title_chapters (fst (to_xml_tree (ascii ''Title 5'') [[Some l]]))) =
      [ascii ''Chapter 2.'' @ [em_dash] @ ascii ''General Provisions.'']"
    by (simp only: a) (simp add: List.map_filter_def c n)
  from c a' b d show ?thesis
    unfolding l_def [symmetric] by (intro conjI)
qed

section \<open>A section with no chapter before it\<close>

lemma parse_paras_no_chapter:
  assumes "\<forall>l \<in> set paras. chapter_head_match l = None"
  shows "parse_paras paras = []"
proof -
  have "map ch_name (parse_paras paras) = []"
    using heads_none [OF assms] by (simp add: parse_paras_names)
  then show ?thesis by simp
qed

text \<open>
  The recovery is in \<open>add_section\<close>: called while no chapter is current, it creates
  the Chapter named "Chapter 0.(em dash)UNSPECIFIED." and attaches the section to it.
\<close>

lemma chapter_name_unspecified:
  "chapter_name (ascii ''0'') (ascii ''UNSPECIFIED'') =
     ascii ''Chapter 0.'' @ [em_dash] @ ascii ''UNSPECIFIED.''"
  by (simp add: chapter_name_def str_eval re_eval)

lemma add_section_no_chapter:
  assumes "current_chapter b = None"
  shows "add_section b num title body =
    \<lparr>chapters = chapters b @
       [\<lparr>ch_name = ascii ''Chapter 0.'' @ [em_dash] @ ascii ''UNSPECIFIED.'',
         ch_sections = [\<lparr>sec_name = num @ ascii ''. '' @ strip title, sec_body = strip body\<rparr>]\<rparr>],
      current_chapter = Some (length (chapters b))\<rparr>"
  using assms
  by (simp add: add_section_def start_chapter_def Let_def append_section_def
      chapter_name_unspecified)

text \<open>
  The parser never makes that call. The preamble scan stops only at a chapter header or at
  the end of the input, so the first iteration of the main loop starts a chapter, and after
  one or more iterations inside the input the builder holds a current chapter: the guard of
  \<open>add_section\<close> is never true when the parser calls it. An input with no chapter header
  gives a tree with no Chapter.
\<close>

lemma recovery_unreachable:
  assumes "\<And>m. m < n \<Longrightarrow>
      fst ((parse_step paras ^^ m)
        (skip_preamble paras 0, \<lparr>chapters = [], current_chapter = None\<rparr>)) < length paras"
    and "0 < n"
  shows "builder_ok (snd ((parse_step paras ^^ n)
      (skip_preamble paras 0, \<lparr>chapters = [], current_chapter = None\<rparr>)))"
  using assms
proof (induction n)
  case 0
  then show ?case by simp
next
  case (Suc n)
  let ?s0 = "(skip_preamble paras 0, \<lparr>chapters = [], current_chapter = None\<rparr>)"
  obtain i b where st: "(parse_step paras ^^ n) ?s0 = (i, b)"
    by (cases "(parse_step paras ^^ n) ?s0")
  from Suc.prems(1) [of n] have lt: "i < length paras" by (simp add: st)
  have "builder_ok b \<or> chapter_head_match (paras ! i) \<noteq> None"
  proof (cases "n = 0")
    case True
    with st have "i = skip_preamble paras 0" by simp
    with lt show ?thesis using skip_preamble_stops [of paras 0] by simp
  next
    case False
    then have "builder_ok (snd ((parse_step paras ^^ n) ?s0))"
      using Suc.IH Suc.prems(1) by simp
    then show ?thesis by (simp add: st)
  qed
  from parse_step_names [OF lt this] have "builder_ok (snd (parse_step paras (i, b)))" by simp
  then show ?case by (simp add: st)
qed

lemma no_chapter_header_no_chapter:
  assumes "\<forall>l \<in> set (paras_of doc). chapter_head_match l = None"
  shows "title_chapters (fst (to_xml_tree stem doc)) = []"
  using parse_paras_no_chapter [OF assms] by (simp add: to_xml_tree_def Let_def split_beta)

text \<open>
  Claim C1. A section line met while no chapter header has been recognized is to be
  attached to a synthesized Chapter named "Chapter 0.(em dash)UNSPECIFIED."; the code does
  not do so. On the input whose only content line is "101. Time(em dash) Electors", a
  section line (it matches the inline-section pattern), the tree the parser returns has no
  Chapter and the section is lost, although \<open>add_section\<close>, had it been called, would
  have built that Chapter with the section in it.
\<close>

theorem section_without_chapter_dropped:
  "section_inline_match (ascii ''101. Time'' @ [em_dash] @ ascii '' Electors'') =
     Some (ascii ''101'', ascii ''Time'', ascii ''Electors'') \<and>
   title_chapters (fst (to_xml_tree (ascii ''Title 3'')
     [[Some (ascii ''101. Time'' @ [em_dash] @ ascii '' Electors'')]])) = [] \<and>
   chapters (add_section \<lparr>chapters = [], current_chapter = None\<rparr>
     (ascii ''101'') (ascii ''Time'') (ascii ''Electors'')) =
     [\<lparr>ch_name = ascii ''Chapter 0.'' @ [em_dash] @ ascii ''UNSPECIFIED.'',
       ch_sections = [\<lparr>sec_name = ascii ''101. Time'', sec_body = ascii ''Electors''\<rparr>]\<rparr>]"
proof -
  define l where "l = ascii ''101. Time'' @ [em_dash] @ ascii '' Electors''"
  have p: "paras_of [[Some l]] = [l]"
    by (simp add: paras_of_def iter_docx_paragraph_text_def run_texts_def List.map_filter_def
        l_def str_eval re_eval)
  have c: "chapter_head_match l = None"
    by (simp add: l_def re_eval)
  have s: "section_inline_match l = Some (ascii ''101'', ascii ''Time'', ascii ''Electors'')"
    by (simp add: l_def re_eval)
  have "\<forall>l \<in> set (paras_of [[Some l]]). chapter_head_match l = None"
    by (simp add: p c)
  then have none: "title_chapters (fst (to_xml_tree (ascii ''Title 3'') [[Some l]])) = []"
    by (rule no_chapter_header_no_chapter)
  have st: "strip (ascii ''Time'') = ascii ''Time''" "strip (ascii ''Electors'') = ascii ''Electors''"
    by (simp_all add: str_eval re_eval)
  have a: "chapters (add_section \<lparr>chapters = [], current_chapter = None\<rparr>
     (ascii ''101'') (ascii ''Time'') (ascii ''Electors'')) =
     [\<lparr>ch_name = ascii ''Chapter 0.'' @ [em_dash] @ ascii ''UNSPECIFIED.'',
       ch_sections = [\<lparr>sec_name = ascii ''101. Time'', sec_body = ascii ''Electors''\<rparr>]\<rparr>]"
    by (simp add: add_section_no_chapter st) (simp add: ascii_def)
  from s none a show ?thesis
    unfolding l_def [symmetric] by (intro conjI)
qed

section \<open>Table-of-contents lines\<close>

lemma isdecimal_C: "\<not> isdecimal 67" "\<not> isdecimal 99"
  by (simp_all add: isdecimal_def decimal_zeros_def)

lemma startswith_chapter_first:
  assumes "startswith (lower line) (ascii ''chapter'')"
  obtains x xs where "line = x # xs" and "x = 67 \<or> x = 99"
proof (cases line)
  case Nil
  with assms show ?thesis by (simp add: lower_def ascii_def)
next
  case (Cons x xs)
  with assms have "x = 67 \<or> x = 99"
    by (auto simp: lower_def lower_char_def ascii_def split: if_splits)
  with Cons that show ?thesis by blast
qed

lemma no_digit_no_section:
  assumes "\<not> isdecimal x"
  shows "section_inline_match (x # xs) = None" and "section_start_match (x # xs) = None"
    and "\<not> section_header_match (x # xs)"
  using assms
  by (simp_all add: section_inline_match_def section_start_match_def section_header_match_def
      re_match_def RE_SECTION_INLINE_def RE_SECTION_START_def RE_SECTION_HEADER_def)

lemma toc_line_not_section:
  assumes "toc_line line"
  shows "chapter_head_match line = None" and "section_inline_match line = None"
    and "section_start_match line = None" and "\<not> body_stop line"
proof -
  from assms have s: "startswith (lower line) (ascii ''chapter'')"
    and c: "chapter_head_match line = None" by (simp_all add: toc_line_def)
  from s obtain x xs where l: "line = x # xs" and x: "x = 67 \<or> x = 99"
    by (rule startswith_chapter_first)
  from x have d: "\<not> isdecimal x" using isdecimal_C by auto
  show "chapter_head_match line = None" by (rule c)
  show "section_inline_match line = None" and "section_start_match line = None"
    using no_digit_no_section [OF d] by (simp_all add: l)
  then show "\<not> body_stop line"
    using c no_digit_no_section(3) [OF d] by (simp add: body_stop_def l)
qed

text \<open>
  Claim C2, as the code has it. A line that begins with "chapter" in any case, contains
  "sec" and does not match the chapter-header pattern never creates a Chapter or a Section:
  where one of the two loops of the parser examines it, the preamble scan goes on to the
  next line and the main loop goes on to the next line with the builder unchanged. It is
  not kept out of section bodies: where the body scan meets it, it is appended to the body
  of the section being collected.
\<close>

theorem toc_line_skipped:
  assumes "toc_line line" and "i < length paras" and "paras ! i = line"
  shows "skip_preamble paras i = skip_preamble paras (i + 1) \<and>
    parse_step paras (i, b) = (i + 1, b) \<and>
    scan_body paras i body_lines = scan_body paras (i + 1) (body_lines @ [line])"
proof -
  note n = toc_line_not_section [OF assms(1)]
  have "skip_preamble paras i = skip_preamble paras (i + 1)"
    using assms by (subst skip_preamble.simps) simp
  moreover have "parse_step paras (i, b) = (i + 1, b)"
    using assms(3) n(1-3) by (simp add: parse_step_def)
  moreover have "scan_body paras i body_lines = scan_body paras (i + 1) (body_lines @ [line])"
    using assms(2,3) n(4) by (subst scan_body.simps) simp
  ultimately show ?thesis by simp
qed

theorem toc_line_skipped_witness:
  "skip_preamble [ascii ''Preface'', ascii ''Chapter Sec.''] 1 =
     skip_preamble [ascii ''Preface'', ascii ''Chapter Sec.''] 2 \<and>
   parse_step [ascii ''Preface'', ascii ''Chapter Sec.'']
     (1, \<lparr>chapters = [], current_chapter = None\<rparr>) =
     (2, \<lparr>chapters = [], current_chapter = None\<rparr>) \<and>
   scan_body [ascii ''Preface'', ascii ''Chapter Sec.''] 1 [] =
     scan_body [ascii ''Preface'', ascii ''Chapter Sec.''] 2 [ascii ''Chapter Sec.'']"
proof -
  define lt where "lt = ascii ''Chapter Sec.''"
  have t: "toc_line lt"
    by (simp add: toc_line_def lt_def str_eval re_eval)
  have i: "1 < length [ascii ''Preface'', lt]" by simp
  have l: "[ascii ''Preface'', lt] ! 1 = lt" by simp
  show ?thesis
    unfolding lt_def [symmetric]
    using toc_line_skipped [OF t i l, of "\<lparr>chapters = [], current_chapter = None\<rparr>" "[]"]
    by (simp add: numeral_2_eq_2)
qed

text \<open>
  The claim as the spec states it fails in the body scan: the third paragraph below is
  such a line, and it becomes the body of the section started on the second.
\<close>

theorem toc_line_counterexample:
  "toc_line (normalize (ascii ''Chapter   Sec.'')) \<and>
   title_chapters (fst (to_xml_tree (ascii ''Title 3'')
     [[Some (ascii ''Chapter 1'' @ [em_dash] @ ascii ''General'')],
      [Some (ascii ''1. Definitions'' @ [em_dash])],
      [Some (ascii ''Chapter   Sec.'')]])) =
     [\<lparr>ch_name = ascii ''Chapter 1.'' @ [em_dash] @ ascii ''General.'',
       ch_sections =
         [\<lparr>sec_name = ascii ''1. Definitions'', sec_body = ascii ''Chapter Sec.''\<rparr>]\<rparr>]"
proof -
  define lc where "lc = ascii ''Chapter 1'' @ [em_dash] @ ascii ''General''"
  define ls where "ls = ascii ''1. Definitions'' @ [em_dash]"
  define lt where "lt = ascii ''Chapter Sec.''"
  have nt: "normalize (ascii ''Chapter   Sec.'') = lt"
    by (simp add: lt_def str_eval re_eval)
  have p: "paras_of [[Some lc], [Some ls], [Some (ascii ''Chapter   Sec.'')]] = [lc, ls, lt]"
    by (simp add: paras_of_def iter_docx_paragraph_text_def run_texts_def List.map_filter_def
        lc_def ls_def lt_def str_eval re_eval)
  have t: "toc_line lt"
    by (simp add: toc_line_def lt_def str_eval re_eval)
  have c0: "chapter_head_match lc = Some (ascii ''1'', ascii ''General'')"
    by (simp add: lc_def re_eval)
  have t0: "\<not> toc_line lc" by (simp add: toc_line_def c0)
  have c1: "chapter_head_match ls = None" by (simp add: ls_def re_eval)
  have i1: "section_inline_match ls = None" by (simp add: ls_def re_eval)
  have s1: "section_start_match ls = Some (ascii ''1'', ascii ''Definitions'', [])"
    by (simp add: ls_def re_eval)
  have b2: "\<not> body_stop lt"
    by (simp add: body_stop_def lt_def re_eval)
  have k: "skip_preamble [lc, ls, lt] 0 = 0"
    by (simp add: skip_preamble.simps [of _ 0] c0 t0)
  have sc: "scan_body [lc, ls, lt] (Suc (Suc 0)) [] = (Suc (Suc (Suc 0)), [lt])"
    by (simp add: scan_body.simps [of _ "Suc (Suc 0)"] scan_body.simps [of _ "Suc (Suc (Suc 0))"] b2)
  have n: "chapter_name (ascii ''1'') (ascii ''General'') =
      ascii ''Chapter 1.'' @ [em_dash] @ ascii ''General.''"
    by (simp add: chapter_name_def str_eval re_eval)
  have st: "strip (ascii ''Definitions'') = ascii ''Definitions''" "strip lt = lt"
    by (simp_all add: lt_def str_eval re_eval)
  have loop: "parse_loop [lc, ls, lt] (0, \<lparr>chapters = [], current_chapter = None\<rparr>) =
      \<lparr>chapters = [\<lparr>ch_name = ascii ''Chapter 1.'' @ [em_dash] @ ascii ''General.'',
          ch_sections = [\<lparr>sec_name = ascii ''1. Definitions'', sec_body = lt\<rparr>]\<rparr>],
        current_chapter = Some 0\<rparr>"
    apply (subst parse_loop.simps)
    apply (simp add: parse_step_def c0 start_chapter_def n)
    apply (subst parse_loop.simps)
    apply (simp add: parse_step_def c1 i1 s1 sc add_section_def append_section_def st)
    apply (subst parse_loop.simps)
    apply (simp add: ascii_def)
    done
  show ?thesis
    unfolding lc_def [symmetric] ls_def [symmetric]
    by (simp add: nt t to_xml_tree_def Let_def split_beta p parse_paras_def k loop)
      (simp add: lt_def)
qed

section \<open>The matcher and the set of all matches\<close>

text \<open>
  From here on an item that reads a character is unfolded only on a subject that is
  visibly empty or visibly starts with a character.
\<close>

lemmas re_run_Nil = re_run.simps(5-10) [where s = "[]"]
lemmas re_run_Cons = re_run.simps(5-10) [where s = "x # xs"] for x xs
lemmas re_all_Nil = re_all.simps(5-10) [where s = "[]"]
lemmas re_all_Cons = re_all.simps(5-10) [where s = "x # xs"] for x xs

declare re_run.simps(5-10) [simp del] re_all.simps(5-10) [simp del]
declare re_run_Nil [simp] re_run_Cons [simp] re_all_Nil [simp] re_all_Cons [simp]

lemma re_run_first:
  "re_run p s n k = (case re_all p s n k of [] \<Rightarrow> None | x # xs \<Rightarrow> Some x)"
proof (induction p s n k rule: re_run.induct)
  case (1 s n k)
  show ?case by simp
next
  case (2 r s n k)
  then show ?case by simp
next
  case (3 r s n k)
  then show ?case by simp
next
  case (4 i r s n k)
  show ?case by (simp only: re_run.simps re_all.simps "4.IH")
next
  case (5 c r s n k)
  then show ?case by (cases s) simp_all
next
  case (6 c r s n k)
  show ?case
  proof (cases s)
    case Nil
    with 6 show ?thesis by simp
  next
    case (Cons x xs)
    show ?thesis
    proof (cases "cmatch c x")
      case True
      with Cons 6 show ?thesis by (cases "re_all r xs (n + 1) k") simp_all
    next
      case False
      with Cons 6 show ?thesis by simp
    qed
  qed
next
  case (7 c r s n k)
  show ?case
  proof (cases s)
    case Nil
    with 7 show ?thesis by simp
  next
    case (Cons x xs)
    show ?thesis
    proof (cases "cmatch c x")
      case True
      with Cons 7 show ?thesis by (cases "re_all (Star c # r) xs (n + 1) k") simp_all
    next
      case False
      with Cons 7 show ?thesis by simp
    qed
  qed
next
  case (8 c r s n k)
  then show ?case by (cases s) simp_all
next
  case (9 c r s n k)
  show ?case
  proof (cases "re_all r s n k")
    case Nil
    with "9.IH"(1) have rn: "re_run r s n k = None" by simp
    show ?thesis
    proof (cases s)
      case Nil2: Nil
      with rn Nil show ?thesis by simp
    next
      case (Cons x xs)
      show ?thesis
      proof (cases "cmatch c x")
        case True
        from "9.IH"(2) [OF rn Cons True] rn Nil Cons True show ?thesis by simp
      next
        case False
        with rn Nil Cons show ?thesis by simp
      qed
    qed
  next
    case (Cons y ys)
    with "9.IH"(1) have "re_run r s n k = Some y" by simp
    with Cons show ?thesis by (cases s) simp_all
  qed
next
  case (10 c r s n k)
  then show ?case by (cases s) simp_all
qed

lemma re_run_None: "re_run p s n k = None \<longleftrightarrow> re_all p s n k = []"
  by (simp add: re_run_first split: list.split)

lemma re_run_Some: "re_run p s n k = Some x \<Longrightarrow> x \<in> set (re_all p s n k)"
  by (simp add: re_run_first split: list.split_asm)

lemma re_all_append:
  "re_all (p @ q) s n k =
     concat (map (\<lambda>(s', n', k'). re_all q s' n' k') (re_all p s n k))"
proof (induction p s n k rule: re_all.induct)
  case (1 s n k)
  show ?case by simp
next
  case (2 r s n k)
  then show ?case by simp
next
  case (3 r s n k)
  then show ?case by simp
next
  case (4 i r s n k)
  show ?case by (simp only: re_all.simps append_Cons "4.IH")
next
  case (5 c r s n k)
  then show ?case by (cases s) simp_all
next
  case (6 c r s n k)
  then show ?case by (cases s) simp_all
next
  case (7 c r s n k)
  then show ?case by (cases s) simp_all
next
  case (8 c r s n k)
  then show ?case by (cases s) simp_all
next
  case (9 c r s n k)
  then show ?case by (cases s) simp_all
next
  case (10 c r s n k)
  then show ?case by (cases s) simp_all
qed

lemma mem_One:
  "x \<in> set (re_all (One c # r) s n k) \<longleftrightarrow>
     (\<exists>a s1. s = a # s1 \<and> cmatch c a \<and> x \<in> set (re_all r s1 (n + 1) k))"
  by (cases s) auto

lemma mem_Star:
  "x \<in> set (re_all (Star c # r) s n k) \<longleftrightarrow>
     (\<exists>u s1. s = u @ s1 \<and> list_all (cmatch c) u \<and> x \<in> set (re_all r s1 (n + length u) k))"
proof (induction s arbitrary: n)
  case Nil
  show ?case by simp
next
  case (Cons a s)
  show ?case
  proof
    assume "x \<in> set (re_all (Star c # r) (a # s) n k)"
    then consider "cmatch c a" "x \<in> set (re_all (Star c # r) s (n + 1) k)"
      | "x \<in> set (re_all r (a # s) n k)"
      by (auto split: if_splits)
    then show "\<exists>u s1. a # s = u @ s1 \<and> list_all (cmatch c) u \<and>
        x \<in> set (re_all r s1 (n + length u) k)"
    proof cases
      case 1
      from 1(2) obtain u s1 where "s = u @ s1" "list_all (cmatch c) u"
        "x \<in> set (re_all r s1 (n + 1 + length u) k)" unfolding Cons.IH by blast
      with 1(1) show ?thesis by (intro exI [of _ "a # u"] exI [of _ s1]) simp
    next
      case 2
      then show ?thesis by (intro exI [of _ "[]"] exI [of _ "a # s"]) simp
    qed
  next
    assume "\<exists>u s1. a # s = u @ s1 \<and> list_all (cmatch c) u \<and>
        x \<in> set (re_all r s1 (n + length u) k)"
    then obtain u s1 where u: "a # s = u @ s1" "list_all (cmatch c) u"
      "x \<in> set (re_all r s1 (n + length u) k)" by blast
    show "x \<in> set (re_all (Star c # r) (a # s) n k)"
    proof (cases u)
      case Nil
      with u have "x \<in> set (re_all r (a # s) n k)" by simp
      then show ?thesis by simp
    next
      case (Cons b u')
      with u have "a = b" "s = u' @ s1" "cmatch c a" "list_all (cmatch c) u'"
        "x \<in> set (re_all r s1 (n + 1 + length u') k)" by simp_all
      then have "x \<in> set (re_all (Star c # r) s (n + 1) k)"
        unfolding Cons.IH by blast
      with \<open>cmatch c a\<close> show ?thesis by simp
    qed
  qed
qed

lemma mem_Plus:
  "x \<in> set (re_all (Plus c # r) s n k) \<longleftrightarrow>
     (\<exists>u s1. u \<noteq> [] \<and> s = u @ s1 \<and> list_all (cmatch c) u \<and>
        x \<in> set (re_all r s1 (n + length u) k))"
proof
  assume "x \<in> set (re_all (Plus c # r) s n k)"
  then obtain a s' where s: "s = a # s'" "cmatch c a"
    "x \<in> set (re_all (Star c # r) s' (n + 1) k)"
    by (cases s) (auto split: if_splits)
  from s(3) obtain u s1 where "s' = u @ s1" "list_all (cmatch c) u"
    "x \<in> set (re_all r s1 (n + 1 + length u) k)" unfolding mem_Star by blast
  with s show "\<exists>u s1. u \<noteq> [] \<and> s = u @ s1 \<and> list_all (cmatch c) u \<and>
        x \<in> set (re_all r s1 (n + length u) k)"
    by (intro exI [of _ "a # u"] exI [of _ s1]) simp
next
  assume "\<exists>u s1. u \<noteq> [] \<and> s = u @ s1 \<and> list_all (cmatch c) u \<and>
        x \<in> set (re_all r s1 (n + length u) k)"
  then obtain u s1 where u: "u \<noteq> []" "s = u @ s1" "list_all (cmatch c) u"
    "x \<in> set (re_all r s1 (n + length u) k)" by blast
  then obtain a u' where a: "u = a # u'" by (cases u) auto
  with u have "x \<in> set (re_all (Star c # r) (u' @ s1) (n + 1) k)"
    unfolding mem_Star by (intro exI [of _ u'] exI [of _ s1]) simp
  with u a show "x \<in> set (re_all (Plus c # r) s n k)" by simp
qed

lemma mem_LazyStar:
  "x \<in> set (re_all (LazyStar c # r) s n k) \<longleftrightarrow> x \<in> set (re_all (Star c # r) s n k)"
proof (induction s arbitrary: n)
  case Nil
  show ?case by simp
next
  case (Cons a s)
  then show ?case by auto
qed

lemma mem_LazyPlus:
  "x \<in> set (re_all (LazyPlus c # r) s n k) \<longleftrightarrow>
     (\<exists>u s1. u \<noteq> [] \<and> s = u @ s1 \<and> list_all (cmatch c) u \<and>
        x \<in> set (re_all r s1 (n + length u) k))"
proof -
  have "x \<in> set (re_all (LazyPlus c # r) s n k) \<longleftrightarrow> x \<in> set (re_all (Plus c # r) s n k)"
    by (cases s) (simp_all add: mem_LazyStar)
  then show ?thesis by (simp only: mem_Plus)
qed

section \<open>A section start has nothing after its dash\<close>

lemma mem_append:
  "x \<in> set (re_all (p @ q) s n k) \<longleftrightarrow>
     (\<exists>s' n' k'. (s', n', k') \<in> set (re_all p s n k) \<and> x \<in> set (re_all q s' n' k'))"
  by (auto simp: re_all_append)

lemma empty_append:
  "re_all (p @ q) s n k = [] \<longleftrightarrow>
     (\<forall>s' n' k'. (s', n', k') \<in> set (re_all p s n k) \<longrightarrow> re_all q s' n' k' = [])"
  by (auto simp: re_all_append)

lemma start_tail:
  "re_all [Mark 4, Star Any, Mark 5, Eol] s n k =
     re_all [Mark 4, Plus Any, Mark 5, Eol] s n k @
     (if s = [] \<or> s = [newline] then [(s, n, k(4 \<mapsto> n, 5 \<mapsto> n))] else [])"
  by (cases s) simp_all

lemma start_body_empty:
  assumes "section_inline_match line = None"
    and "section_start_match line = Some (num, title, first_body)"
  shows "first_body = []"
proof -
  let ?q = "[Bol, Mark 0, Plus Digit, Mark 1, One (Lit dot), Star Space, Mark 2, LazyPlus Any,
    Mark 3, Star Space, One (Lit em_dash), Star Space]"
  have inl: "RE_SECTION_INLINE = ?q @ [Mark 4, Plus Any, Mark 5, Eol]"
    by (simp add: RE_SECTION_INLINE_def)
  have sta: "RE_SECTION_START = ?q @ [Mark 4, Star Any, Mark 5, Eol]"
    by (simp add: RE_SECTION_START_def)
  from assms(1) have "re_run RE_SECTION_INLINE line 0 Map.empty = None"
    by (simp add: section_inline_match_def re_match_def)
  then have "re_all (?q @ [Mark 4, Plus Any, Mark 5, Eol]) line 0 Map.empty = []"
    by (simp only: re_run_None inl)
  then have none: "\<forall>s' n' k'. (s', n', k') \<in> set (re_all ?q line 0 Map.empty) \<longrightarrow>
      re_all [Mark 4, Plus Any, Mark 5, Eol] s' n' k' = []"
    by (simp only: empty_append)
  from assms(2) obtain rest n k where
    run: "re_run RE_SECTION_START line 0 Map.empty = Some (rest, n, k)"
    and fb: "first_body = mgroup line k 3"
    by (auto simp: section_start_match_def re_match_def groups3_def)
  from run have "(rest, n, k) \<in> set (re_all (?q @ [Mark 4, Star Any, Mark 5, Eol]) line 0 Map.empty)"
    unfolding sta by (rule re_run_Some)
  then obtain s' n' k' where st: "(s', n', k') \<in> set (re_all ?q line 0 Map.empty)"
    and m: "(rest, n, k) \<in> set (re_all [Mark 4, Star Any, Mark 5, Eol] s' n' k')"
    unfolding mem_append by blast
  from none st have "re_all [Mark 4, Plus Any, Mark 5, Eol] s' n' k' = []" by blast
  with m have "(rest, n, k) \<in> set (if s' = [] \<or> s' = [newline]
      then [(s', n', k'(4 \<mapsto> n', 5 \<mapsto> n'))] else [])"
    by (simp only: start_tail append_Nil)
  then have "k = k'(4 \<mapsto> n', 5 \<mapsto> n')" by (auto split: if_splits)
  with fb show ?thesis by (simp add: mgroup_def)
qed

section \<open>The body of a section that spans several lines\<close>

lemma paras_of_stripped:
  assumes "l \<in> set (paras_of doc)"
  shows "l \<noteq> [] \<and> \<not> isspace (hd l) \<and> \<not> isspace (last l)"
proof -
  from assms obtain p where p: "strip p \<noteq> []" and l: "l = normalize p"
    by (auto simp: paras_of_def)
  from p have ne: "l \<noteq> []" unfolding l by (rule normalize_nonempty)
  then have "strip (sub_ws (replace_chr en_dash em_dash p)) \<noteq> []"
    by (simp add: l normalize_def)
  then show ?thesis
    using ne strip_hd [of "sub_ws (replace_chr en_dash em_dash p)"]
      strip_last [of "sub_ws (replace_chr en_dash em_dash p)"]
    by (simp add: l normalize_def)
qed

lemma join_nonempty: "ls \<noteq> [] \<Longrightarrow> hd ls \<noteq> [] \<Longrightarrow> join sep ls \<noteq> []"
  by (induction sep ls rule: join.induct) auto

lemma hd_join: "ls \<noteq> [] \<Longrightarrow> hd ls \<noteq> [] \<Longrightarrow> hd (join sep ls) = hd (hd ls)"
  by (induction sep ls rule: join.induct) auto

lemma last_join:
  "ls \<noteq> [] \<Longrightarrow> \<forall>l \<in> set ls. l \<noteq> [] \<Longrightarrow> last (join sep ls) = last (last ls)"
proof (induction sep ls rule: join.induct)
  case (3 sep x y r)
  then have "join sep (y # r) \<noteq> []" by (intro join_nonempty) auto
  with 3 show ?case by simp
qed auto

lemma strip_join:
  assumes "\<forall>l \<in> set ls. l \<noteq> [] \<and> \<not> isspace (hd l) \<and> \<not> isspace (last l)"
  shows "strip (join sep ls) = join sep ls"
proof (cases "ls = []")
  case True
  then show ?thesis by (simp add: strip_def rstrip_def)
next
  case False
  then have "hd ls \<in> set ls" "last ls \<in> set ls" by simp_all
  with assms False have "\<not> isspace (hd (join sep ls))" "\<not> isspace (last (join sep ls))"
    by (simp_all add: hd_join last_join)
  then show ?thesis by (intro strip_id) simp
qed

text \<open>
  What the main loop does at a line of the normalized input that starts a section whose
  dash ends the line (it matches neither the chapter-header nor the inline-section pattern,
  and matches the section-start pattern) while a chapter is current: the body scan collects
  every following line up to the first one that matches the chapter-header pattern, the
  inline-section pattern or the section-header pattern (digits, a period and a whitespace
  character), or up to the end of the input; the section attached to the current chapter
  has as its body those lines, in their order, joined by a newline, and the loop goes on at
  the line that stopped the scan.
\<close>

lemma body_accumulation:
  assumes "i < length (paras_of doc)"
    and "chapter_head_match (paras_of doc ! i) = None"
    and "section_inline_match (paras_of doc ! i) = None"
    and "section_start_match (paras_of doc ! i) = Some (num, sec_title, first_body)"
    and "current_chapter b = Some c" and "c < length (chapters b)"
    and "body = takeWhile
           (\<lambda>l. chapter_head_match l = None \<and> section_inline_match l = None \<and>
                \<not> section_header_match l)
           (drop (i + 1) (paras_of doc))"
  shows "parse_step (paras_of doc) (i, b) =
    (i + 1 + length body,
     b\<lparr>chapters := (chapters b)[c := append_section
         \<lparr>sec_name = num @ ascii ''. '' @ strip sec_title, sec_body = join [newline] body\<rparr>
         (chapters b ! c)]\<rparr>)"
proof -
  have fb: "first_body = []" using assms(3,4) by (rule start_body_empty)
  have "\<And>l. (\<not> body_stop l) = (chapter_head_match l = None \<and>
      section_inline_match l = None \<and> \<not> section_header_match l)"
    by (simp only: body_stop_def de_Morgan_disj not_not)
  then have b: "body = takeWhile (\<lambda>l. \<not> body_stop l) (drop (i + 1) (paras_of doc))"
    by (simp only: assms(7))
  have "set body \<subseteq> set (drop (i + 1) (paras_of doc))"
    unfolding b by (auto dest: set_takeWhileD)
  also have "\<dots> \<subseteq> set (paras_of doc)" by (rule set_drop_subset)
  finally have "\<forall>l \<in> set body. l \<noteq> [] \<and> \<not> isspace (hd l) \<and> \<not> isspace (last l)"
    using paras_of_stripped by blast
  then have s: "strip (join [newline] body) = join [newline] body" by (rule strip_join)
  have sc: "scan_body (paras_of doc) (i + 1) [] = (i + 1 + length body, body)"
    by (simp only: scan_body_takeWhile b [symmetric] append_Nil)
  have "parse_step (paras_of doc) (i, b) =
      (i + 1 + length body, add_section b num sec_title (join [newline] body))"
    by (simp only: parse_step_def prod.case Let_def assms(2-4) option.case fb sc simp_thms if_False)
  then show ?thesis by (simp only: add_section_chapters [OF assms(5,6)] s)
qed

text \<open>
  Claim C4. The body of a section that spans several lines is to be all of those lines
  joined by newlines, none dropped. The code does so only when the dash ends the header
  line. When the body starts on the header line, the inline-section branch takes the line
  first, the section is complete after it, and the lines that continue the body match
  nothing and are skipped: in the first document below the section holds "In this title"
  alone and "words mean things." is lost. The second document has the same text with the
  body starting on the next line, and the body holds both lines.
\<close>

theorem body_continuation_dropped:
  "title_chapters (fst (to_xml_tree (ascii ''Title 1'')
     [[Some (ascii ''Chapter 1'' @ [em_dash] @ ascii ''General'')],
      [Some (ascii ''1. Definitions'' @ [em_dash] @ ascii '' In this title'')],
      [Some (ascii ''words mean things.'')]])) =
     [\<lparr>ch_name = ascii ''Chapter 1.'' @ [em_dash] @ ascii ''General.'',
       ch_sections =
         [\<lparr>sec_name = ascii ''1. Definitions'', sec_body = ascii ''In this title''\<rparr>]\<rparr>] \<and>
   title_chapters (fst (to_xml_tree (ascii ''Title 1'')
     [[Some (ascii ''Chapter 1'' @ [em_dash] @ ascii ''General'')],
      [Some (ascii ''1. Definitions'' @ [em_dash])],
      [Some (ascii ''In this title'')],
      [Some (ascii ''words mean things.'')]])) =
     [\<lparr>ch_name = ascii ''Chapter 1.'' @ [em_dash] @ ascii ''General.'',
       ch_sections =
         [\<lparr>sec_name = ascii ''1. Definitions'',
           sec_body = ascii ''In this title'' @ [newline] @ ascii ''words mean things.''\<rparr>]\<rparr>]"
proof -
  define lc where "lc = ascii ''Chapter 1'' @ [em_dash] @ ascii ''General''"
  define li where "li = ascii ''1. Definitions'' @ [em_dash] @ ascii '' In this title''"
  define ls where "ls = ascii ''1. Definitions'' @ [em_dash]"
  define la where "la = ascii ''In this title''"
  define lb where "lb = ascii ''words mean things.''"
  define b0 where "b0 = \<lparr>chapters = [], current_chapter = None\<rparr>"
  define b1 where "b1 = \<lparr>chapters =
      [\<lparr>ch_name = ascii ''Chapter 1.'' @ [em_dash] @ ascii ''General.'', ch_sections = []\<rparr>],
      current_chapter = Some 0\<rparr>"
  have p1: "paras_of [[Some lc], [Some li], [Some lb]] = [lc, li, lb]"
    by (simp add: paras_of_def iter_docx_paragraph_text_def run_texts_def List.map_filter_def
        lc_def li_def lb_def str_eval re_eval)
  have p2: "paras_of [[Some lc], [Some ls], [Some la], [Some lb]] = [lc, ls, la, lb]"
    by (simp add: paras_of_def iter_docx_paragraph_text_def run_texts_def List.map_filter_def
        lc_def ls_def la_def lb_def str_eval re_eval)
  have c0: "chapter_head_match lc = Some (ascii ''1'', ascii ''General'')"
    by (simp add: lc_def re_eval)
  have t0: "\<not> toc_line lc" by (simp add: toc_line_def c0)
  have n: "chapter_name (ascii ''1'') (ascii ''General'') =
      ascii ''Chapter 1.'' @ [em_dash] @ ascii ''General.''"
    by (simp add: chapter_name_def str_eval re_eval)
  have ci: "chapter_head_match li = None" by (simp add: li_def re_eval)
  have ii: "section_inline_match li =
      Some (ascii ''1'', ascii ''Definitions'', ascii ''In this title'')"
    by (simp add: li_def re_eval)
  have cs: "chapter_head_match ls = None" by (simp add: ls_def re_eval)
  have ins: "section_inline_match ls = None" by (simp add: ls_def re_eval)
  have ss: "section_start_match ls = Some (ascii ''1'', ascii ''Definitions'', [])"
    by (simp add: ls_def re_eval)
  have ca: "chapter_head_match la = None" "section_inline_match la = None"
    "section_start_match la = None" "\<not> section_header_match la"
    by (simp_all add: la_def re_eval)
  have cb: "chapter_head_match lb = None" "section_inline_match lb = None"
    "section_start_match lb = None" "\<not> section_header_match lb"
    by (simp_all add: lb_def re_eval)
  have st: "strip (ascii ''Definitions'') = ascii ''Definitions''"
    "strip la = la" "strip (la @ newline # lb) = la @ newline # lb"
    by (simp_all add: la_def lb_def str_eval re_eval)
  have k1: "skip_preamble [lc, li, lb] 0 = 0"
    by (simp add: skip_preamble.simps [of _ 0] c0 t0)
  have k2: "skip_preamble [lc, ls, la, lb] 0 = 0"
    by (simp add: skip_preamble.simps [of _ 0] c0 t0)
  have loop1: "parse_loop [lc, li, lb] (0, b0) =
      b1\<lparr>chapters := [\<lparr>ch_name = ascii ''Chapter 1.'' @ [em_dash] @ ascii ''General.'',
        ch_sections = [\<lparr>sec_name = ascii ''1. Definitions'', sec_body = la\<rparr>]\<rparr>]\<rparr>"
    apply (subst parse_loop.simps)
    apply (simp add: parse_step_def c0 start_chapter_def n b0_def)
    apply (subst parse_loop.simps)
    apply (simp add: parse_step_def ci ii add_section_def append_section_def st la_def [symmetric])
    apply (subst parse_loop.simps)
    apply (simp add: parse_step_def cb)
    apply (subst parse_loop.simps)
    apply (simp add: b1_def ascii_def)
    done
  have sc: "scan_body [lc, ls, la, lb] (Suc (Suc 0)) [] = (Suc (Suc (Suc (Suc 0))), [la, lb])"
    by (simp add: scan_body.simps [of _ "Suc (Suc 0)"] scan_body.simps [of _ "Suc (Suc (Suc 0))"]
        scan_body.simps [of _ "Suc (Suc (Suc (Suc 0)))"] body_stop_def ca cb)
  have loop2: "parse_loop [lc, ls, la, lb] (0, b0) =
      b1\<lparr>chapters := [\<lparr>ch_name = ascii ''Chapter 1.'' @ [em_dash] @ ascii ''General.'',
        ch_sections = [\<lparr>sec_name = ascii ''1. Definitions'',
          sec_body = la @ newline # lb\<rparr>]\<rparr>]\<rparr>"
    apply (subst parse_loop.simps)
    apply (simp add: parse_step_def c0 start_chapter_def n b0_def)
    apply (subst parse_loop.simps)
    apply (simp add: parse_step_def cs ins ss sc add_section_def append_section_def st)
    apply (subst parse_loop.simps)
    apply (simp add: b1_def ascii_def)
    done
  show ?thesis
    unfolding lc_def [symmetric] li_def [symmetric] ls_def [symmetric] la_def [symmetric]
      lb_def [symmetric]
    by (simp add: to_xml_tree_def Let_def split_beta p1 p2 parse_paras_def k1 k2
        loop1 [unfolded b0_def] loop2 [unfolded b0_def] b1_def)
qed

section \<open>Lines of the form digits, period, space, title, dash\<close>

lemma run_split_unique:
  "list_all P a \<Longrightarrow> list_all P b \<Longrightarrow> \<not> P x \<Longrightarrow> \<not> P y \<Longrightarrow> a @ x # r = b @ y # r' \<Longrightarrow>
     a = b \<and> x = y \<and> r = r'"
proof (induction a arbitrary: b)
  case Nil
  then show ?case by (cases b) auto
next
  case (Cons a0 a)
  then show ?case by (cases b) auto
qed

lemma last_char_unique: "e \<notin> set w \<Longrightarrow> w @ [e] = a @ e # b \<Longrightarrow> a = w \<and> b = []"
proof (induction w arbitrary: a)
  case Nil
  then show ?case by (cases a) auto
next
  case (Cons w0 w)
  then show ?case by (cases a) auto
qed

lemma strip_ws_left: "list_all isspace u \<Longrightarrow> strip (u @ v) = strip v"
  by (simp add: strip_def dropWhile_append2 list_all_iff)

lemma rstrip_ws_right:
  assumes "list_all P u"
  shows "rstrip P (v @ u) = rstrip P v"
proof -
  have "\<And>x. x \<in> set (rev u) \<Longrightarrow> P x" using assms by (simp add: list_all_iff)
  then have "dropWhile P (rev u @ rev v) = dropWhile P (rev v)" by (rule dropWhile_append2)
  then show ?thesis by (simp add: rstrip_def)
qed

lemma strip_ws_right:
  assumes "list_all isspace u"
  shows "strip (v @ u) = strip v"
proof (cases "\<forall>x \<in> set v. isspace x")
  case True
  with assms have "dropWhile isspace (v @ u) = []" "dropWhile isspace v = []"
    by (simp_all add: list_all_iff)
  then show ?thesis by (simp only: strip_def)
next
  case False
  then obtain x where "x \<in> set v" "\<not> isspace x" by blast
  then have "dropWhile isspace (v @ u) = dropWhile isspace v @ u"
    by (rule dropWhile_append1)
  then show ?thesis using assms by (simp add: strip_def rstrip_ws_right)
qed

lemma strip_ws_around:
  "list_all isspace u1 \<Longrightarrow> list_all isspace u3 \<Longrightarrow> strip (u1 @ u2 @ u3) = strip u2"
  by (simp add: strip_ws_left strip_ws_right)

lemma not_decimal_consts: "\<not> isdecimal dot" "\<not> isdecimal em_dash" "\<not> isspace em_dash"
  by (simp_all add: isdecimal_def decimal_zeros_def dot_def em_dash_def isspace_def)

lemma section_prefix_states:
  assumes L: "L = d @ [dot, 32] @ t @ [em_dash]"
    and d: "list_all isdecimal d" and t: "em_dash \<notin> set t"
    and x: "(s', n', k') \<in> set (re_all
      [Bol, Mark 0, Plus Digit, Mark 1, One (Lit dot), Star Space, Mark 2, LazyPlus Any, Mark 3,
       Star Space, One (Lit em_dash), Star Space] L 0 k0)"
  shows "s' = [] \<and> (\<exists>u1 u2 u3. 32 # t = u1 @ u2 @ u3 \<and> list_all isspace u1 \<and>
    list_all isspace u3 \<and>
    k' = k0(0 \<mapsto> 0, 1 \<mapsto> length d, 2 \<mapsto> length d + 1 + length u1,
            3 \<mapsto> length d + 1 + length u1 + length u2))"
proof -
  from x have "(s', n', k') \<in> set (re_all
      [Plus Digit, Mark 1, One (Lit dot), Star Space, Mark 2, LazyPlus Any, Mark 3,
       Star Space, One (Lit em_dash), Star Space] L 0 (k0(0 \<mapsto> 0)))" by simp
  then obtain ud s1 where ud: "L = ud @ s1" "list_all isdecimal ud"
    and x1: "(s', n', k') \<in> set (re_all
      [One (Lit dot), Star Space, Mark 2, LazyPlus Any, Mark 3,
       Star Space, One (Lit em_dash), Star Space] s1 (length ud) (k0(0 \<mapsto> 0, 1 \<mapsto> length ud)))"
    unfolding mem_Plus by (auto simp: list_all_iff)
  from x1 obtain s2 where s2: "s1 = dot # s2"
    and x2: "(s', n', k') \<in> set (re_all
      [Star Space, Mark 2, LazyPlus Any, Mark 3, Star Space, One (Lit em_dash), Star Space]
       s2 (length ud + 1) (k0(0 \<mapsto> 0, 1 \<mapsto> length ud)))"
    unfolding mem_One by auto
  from x2 obtain u1 s3 where u1: "s2 = u1 @ s3" "list_all isspace u1"
    and x3: "(s', n', k') \<in> set (re_all
      [LazyPlus Any, Mark 3, Star Space, One (Lit em_dash), Star Space]
       s3 (length ud + 1 + length u1)
       (k0(0 \<mapsto> 0, 1 \<mapsto> length ud, 2 \<mapsto> length ud + 1 + length u1)))"
    unfolding mem_Star by (auto simp: list_all_iff)
  from x3 obtain u2 s4 where u2: "s3 = u2 @ s4"
    and x4: "(s', n', k') \<in> set (re_all
      [Star Space, One (Lit em_dash), Star Space]
       s4 (length ud + 1 + length u1 + length u2)
       (k0(0 \<mapsto> 0, 1 \<mapsto> length ud, 2 \<mapsto> length ud + 1 + length u1,
           3 \<mapsto> length ud + 1 + length u1 + length u2)))"
    unfolding mem_LazyPlus by auto
  from x4 obtain u3 s5 where u3: "s4 = u3 @ s5" "list_all isspace u3"
    and x5: "(s', n', k') \<in> set (re_all [One (Lit em_dash), Star Space]
       s5 (length ud + 1 + length u1 + length u2 + length u3)
       (k0(0 \<mapsto> 0, 1 \<mapsto> length ud, 2 \<mapsto> length ud + 1 + length u1,
           3 \<mapsto> length ud + 1 + length u1 + length u2)))"
    unfolding mem_Star by (auto simp: list_all_iff)
  from x5 obtain s6 where s6: "s5 = em_dash # s6"
    and x6: "(s', n', k') \<in> set (re_all [Star Space]
       s6 (length ud + 1 + length u1 + length u2 + length u3 + 1)
       (k0(0 \<mapsto> 0, 1 \<mapsto> length ud, 2 \<mapsto> length ud + 1 + length u1,
           3 \<mapsto> length ud + 1 + length u1 + length u2)))"
    unfolding mem_One by auto
  have "em_dash \<notin> set d" using d not_decimal_consts(2) by (auto simp: list_all_iff)
  with t have nm: "em_dash \<notin> set (d @ dot # 32 # t)"
    by (simp add: em_dash_def dot_def)
  have "(d @ dot # 32 # t) @ [em_dash] = L" by (simp only: L append_assoc append_Cons append_Nil)
  also have "L = ud @ dot # u1 @ u2 @ u3 @ em_dash # s6"
    by (simp only: ud(1) s2 u1(1) u2 u3(1) s6)
  also have "\<dots> = (ud @ dot # u1 @ u2 @ u3) @ em_dash # s6"
    by (simp only: append_assoc append_Cons)
  finally have eq: "(d @ dot # 32 # t) @ [em_dash] = (ud @ dot # u1 @ u2 @ u3) @ em_dash # s6" .
  from last_char_unique [OF nm eq]
  have e: "ud @ dot # u1 @ u2 @ u3 = d @ dot # 32 # t" and s6': "s6 = []" by simp_all
  from run_split_unique [OF ud(2) d not_decimal_consts(1) not_decimal_consts(1) e]
  have dd: "ud = d" and tt: "u1 @ u2 @ u3 = 32 # t" by simp_all
  from x6 have "s' = []" and "k' = k0(0 \<mapsto> 0, 1 \<mapsto> length ud, 2 \<mapsto> length ud + 1 + length u1,
           3 \<mapsto> length ud + 1 + length u1 + length u2)"
    by (simp_all add: s6')
  with dd tt u1(2) u3(2) show ?thesis by (intro conjI exI [of _ u1] exI [of _ u2] exI [of _ u3]) simp_all
qed

lemma nonempty_mem: "xs \<noteq> [] \<longleftrightarrow> (\<exists>x. x \<in> set xs)"
  by (cases xs) auto

lemma ne_Bol: "re_all r s 0 k \<noteq> [] \<Longrightarrow> re_all (Bol # r) s 0 k \<noteq> []"
  by simp

lemma ne_Mark: "re_all r s n (k(i \<mapsto> n)) \<noteq> [] \<Longrightarrow> re_all (Mark i # r) s n k \<noteq> []"
  by simp

lemma ne_Eol: "re_all r [] n k \<noteq> [] \<Longrightarrow> re_all (Eol # r) [] n k \<noteq> []"
  by simp

lemma ne_One: "cmatch c a \<Longrightarrow> re_all r s (n + 1) k \<noteq> [] \<Longrightarrow> re_all (One c # r) (a # s) n k \<noteq> []"
  by simp

lemma ne_Star0:
  assumes "re_all r s n k \<noteq> []"
  shows "re_all (Star c # r) s n k \<noteq> []"
proof -
  from assms obtain x where "x \<in> set (re_all r s n k)" by (auto simp: nonempty_mem)
  then have "x \<in> set (re_all (Star c # r) s n k)"
    unfolding mem_Star by (intro exI [of _ "[]"] exI [of _ s]) simp
  then show ?thesis by auto
qed

lemma ne_Plus:
  "u \<noteq> [] \<Longrightarrow> list_all (cmatch c) u \<Longrightarrow> re_all r s1 (n + length u) k \<noteq> [] \<Longrightarrow>
     re_all (Plus c # r) (u @ s1) n k \<noteq> []"
  unfolding nonempty_mem mem_Plus by blast

lemma ne_LazyPlus:
  "u \<noteq> [] \<Longrightarrow> list_all (cmatch c) u \<Longrightarrow> re_all r s1 (n + length u) k \<noteq> [] \<Longrightarrow>
     re_all (LazyPlus c # r) (u @ s1) n k \<noteq> []"
  unfolding nonempty_mem mem_LazyPlus by blast

lemma ne_LazyPlus_Cons:
  "list_all (cmatch c) (a # u) \<Longrightarrow> re_all r s1 (n + length (a # u)) k \<noteq> [] \<Longrightarrow>
     re_all (LazyPlus c # r) (a # u @ s1) n k \<noteq> []"
  using ne_LazyPlus [of "a # u" c r s1 n k] by simp

lemma section_prefix_exists:
  assumes d: "d \<noteq> []" "list_all isdecimal d" and t: "newline \<notin> set t"
    and r: "\<And>n k. re_all r [] n k \<noteq> []"
  shows "re_all
      ([Bol, Mark 0, Plus Digit, Mark 1, One (Lit dot), Star Space, Mark 2, LazyPlus Any, Mark 3,
        Star Space, One (Lit em_dash), Star Space] @ r) (d @ [dot, 32] @ t @ [em_dash]) 0 k0 \<noteq> []"
proof -
  have dd: "list_all (cmatch Digit) d" using d(2) by (simp add: list_all_iff)
  have tt: "list_all (cmatch Any) (32 # t)" using t by (auto simp: list_all_iff newline_def)
  have ns: "\<not> cmatch Space em_dash" by (simp add: not_decimal_consts)
  have e: "\<And>n k. re_all (Star Space # One (Lit em_dash) # Star Space # r) [em_dash] n k \<noteq> []"
    using ns r by simp
  show ?thesis
    apply (simp only: append_Cons append_Nil)
    apply (rule ne_Bol)
    apply (rule ne_Mark)
    apply (rule ne_Plus [OF d(1) dd])
    apply (rule ne_Mark)
    apply (rule ne_One)
     apply simp
    apply (rule ne_Star0)
    apply (rule ne_Mark)
    apply (rule ne_LazyPlus_Cons [OF tt])
    apply (rule ne_Mark)
    apply (rule e)
    done
qed

lemma digit_not_chapter:
  assumes "isdecimal x"
  shows "chapter_head_match (x # xs) = None"
proof -
  from assms isdecimal_C have "x \<noteq> 67" "x \<noteq> 99" by auto
  then have "\<not> cmatch (LitI 67) x" by (auto simp: ascii_lower_def split: if_splits)
  then show ?thesis
    by (simp add: chapter_head_match_def re_match_def RE_CHAPTER_HEAD_def lits_i_def
        del: cmatch.simps)
qed

lemma take_drop_mid: "take (length b) (drop (length a) (a @ b @ c)) = b"
  by simp

lemma section_line_not_inline:
  assumes L: "L = d @ [dot, 32] @ t @ [em_dash]"
    and d: "list_all isdecimal d" and t: "em_dash \<notin> set t"
  shows "section_inline_match L = None"
proof -
  let ?q = "[Bol, Mark 0, Plus Digit, Mark 1, One (Lit dot), Star Space, Mark 2, LazyPlus Any,
    Mark 3, Star Space, One (Lit em_dash), Star Space]"
  have inl: "RE_SECTION_INLINE = ?q @ [Mark 4, Plus Any, Mark 5, Eol]"
    by (simp add: RE_SECTION_INLINE_def)
  have "re_all (?q @ [Mark 4, Plus Any, Mark 5, Eol]) L 0 Map.empty = []"
    unfolding empty_append
  proof (intro allI impI)
    fix s' n' k'
    assume "(s', n', k') \<in> set (re_all ?q L 0 Map.empty)"
    from section_prefix_states [OF L d t this] have "s' = []" by simp
    then show "re_all [Mark 4, Plus Any, Mark 5, Eol] s' n' k' = []" by simp
  qed
  then have "re_run RE_SECTION_INLINE L 0 Map.empty = None"
    by (simp only: re_run_None inl)
  then show ?thesis by (simp add: section_inline_match_def re_match_def)
qed

lemma section_line_start:
  assumes L: "L = d @ [dot, 32] @ t @ [em_dash]"
    and d: "d \<noteq> []" "list_all isdecimal d" and t: "em_dash \<notin> set t" "newline \<notin> set t"
  shows "\<exists>g. section_start_match L = Some (d, g, []) \<and> strip g = strip t"
proof -
  let ?q = "[Bol, Mark 0, Plus Digit, Mark 1, One (Lit dot), Star Space, Mark 2, LazyPlus Any,
    Mark 3, Star Space, One (Lit em_dash), Star Space]"
  let ?r = "[Mark 4, Star Any, Mark 5, Eol]"
  have sta: "RE_SECTION_START = ?q @ ?r"
    by (simp add: RE_SECTION_START_def)
  have "\<And>n k. re_all ?r [] n k \<noteq> []" by simp
  then have "re_all (?q @ ?r) L 0 Map.empty \<noteq> []"
    unfolding L by (rule section_prefix_exists [OF d t(2)])
  then obtain x where "re_run RE_SECTION_START L 0 Map.empty = Some x"
    unfolding sta by (cases "re_run (?q @ ?r) L 0 Map.empty") (simp_all only: re_run_None)
  moreover obtain rest n k where x: "x = (rest, n, k)" by (cases x)
  ultimately have run: "re_run RE_SECTION_START L 0 Map.empty = Some (rest, n, k)" by simp
  then have "(rest, n, k) \<in> set (re_all (?q @ ?r) L 0 Map.empty)"
    unfolding sta by (rule re_run_Some)
  then obtain s' n' k' where st: "(s', n', k') \<in> set (re_all ?q L 0 Map.empty)"
    and m: "(rest, n, k) \<in> set (re_all ?r s' n' k')"
    unfolding mem_append by blast
  from section_prefix_states [OF L d(2) t(1) st] obtain u1 u2 u3 where s': "s' = []"
    and u: "32 # t = u1 @ u2 @ u3" "list_all isspace u1" "list_all isspace u3"
    and k': "k' = Map.empty(0 \<mapsto> 0, 1 \<mapsto> length d, 2 \<mapsto> length d + 1 + length u1,
            3 \<mapsto> length d + 1 + length u1 + length u2)"
    by blast
  from m have k: "k = k'(4 \<mapsto> n', 5 \<mapsto> n')" by (simp add: s')
  have La: "L = (d @ dot # u1) @ u2 @ (u3 @ [em_dash])"
    using u(1) by (simp add: L)
  have g1: "mgroup L k 1 = d" by (simp add: mgroup_def k k' L)
  have "mgroup L k 2 = take (length u2) (drop (length (d @ dot # u1)) L)"
    by (simp add: mgroup_def k k')
  also have "\<dots> = u2" by (simp only: La take_drop_mid)
  finally have g2: "mgroup L k 2 = u2" .
  have g3: "mgroup L k 3 = []" by (simp add: mgroup_def k)
  have "strip u2 = strip (u1 @ u2 @ u3)" using u(2,3) by (simp add: strip_ws_around)
  also have "\<dots> = strip ([32] @ t)" by (simp add: u(1) [symmetric])
  also have "\<dots> = strip t" by (rule strip_ws_left) (simp add: isspace_def)
  finally have "strip u2 = strip t" .
  with run g1 g2 g3 show ?thesis
    by (simp add: section_start_match_def re_match_def groups3_def)
qed

lemma section_line_header:
  assumes L: "L = d @ [dot, 32] @ t @ [em_dash]"
    and d: "d \<noteq> []" "list_all isdecimal d"
  shows "section_header_match L"
proof -
  have dd: "list_all (cmatch Digit) d" using d(2) by (simp add: list_all_iff)
  have "re_all RE_SECTION_HEADER L 0 Map.empty \<noteq> []"
    unfolding RE_SECTION_HEADER_def L
    apply (simp only: append_Cons append_Nil)
    apply (rule ne_Bol)
    apply (rule ne_Mark)
    apply (rule ne_Plus [OF d(1) dd])
    apply (rule ne_Mark)
    apply (rule ne_One)
     apply simp
    apply (rule ne_One)
     apply (simp add: isspace_def)
    apply simp
    done
  then show ?thesis by (simp add: section_header_match_def re_match_def re_run_None)
qed

lemma section_line_not_chapter:
  assumes "L = d @ [dot, 32] @ t @ [em_dash]" and "d \<noteq> []" and "list_all isdecimal d"
  shows "chapter_head_match L = None"
proof -
  from assms(2) obtain x d' where d: "d = x # d'" by (cases d) auto
  with assms(3) have "isdecimal x" by simp
  then have "chapter_head_match (x # d' @ [dot, 32] @ t @ [em_dash]) = None"
    by (rule digit_not_chapter)
  then show ?thesis by (simp add: assms(1) d)
qed

lemma strip_Nil: "strip [] = []"
  by (simp add: strip_def rstrip_def)

lemma section_line_step:
  assumes L: "paras ! i = d @ [dot, 32] @ t @ [em_dash]"
    and d: "d \<noteq> []" "list_all isdecimal d" and t: "em_dash \<notin> set t" "newline \<notin> set t"
    and nxt: "length paras \<le> i + 1 \<or> body_stop (paras ! (i + 1))"
    and cur: "current_chapter b = Some c" "c < length (chapters b)"
  shows "parse_step paras (i, b) =
    (i + 1, b\<lparr>chapters := (chapters b)[c := append_section
       \<lparr>sec_name = d @ ascii ''. '' @ strip t, sec_body = []\<rparr> (chapters b ! c)]\<rparr>)"
proof -
  have ch: "chapter_head_match (paras ! i) = None"
    using L d by (rule section_line_not_chapter)
  have inl: "section_inline_match (paras ! i) = None"
    using L d(2) t(1) by (rule section_line_not_inline)
  from section_line_start [OF L d t] obtain g where
    st: "section_start_match (paras ! i) = Some (d, g, [])" and g: "strip g = strip t"
    by blast
  have sc: "scan_body paras (i + 1) [] = (i + 1, [])"
    using nxt by (subst scan_body.simps) auto
  have "parse_step paras (i, b) = (i + 1, add_section b d g (join [newline] []))"
    by (simp only: parse_step_def prod.case Let_def ch inl st option.case sc simp_thms if_False)
  then show ?thesis
    by (simp add: add_section_chapters [OF cur] g strip_Nil)
qed

text \<open>
  Two consecutive lines of the form digits, period, space, title, em dash, with nothing
  after the dash (the title holding no em dash or newline), met by the main loop while a
  chapter is current and followed by the end of the input or by a line that stops the body
  scan: the two iterations of the loop attach two Sections to the current chapter, one per
  line, named by the digits and the stripped title of its line, each with the empty string
  as its body.
\<close>

lemma consecutive_section_starts:
  assumes "paras ! i = d1 @ [dot, 32] @ t1 @ [em_dash]"
    and "paras ! (i + 1) = d2 @ [dot, 32] @ t2 @ [em_dash]"
    and "d1 \<noteq> []" and "list_all isdecimal d1" and "em_dash \<notin> set t1" and "newline \<notin> set t1"
    and "d2 \<noteq> []" and "list_all isdecimal d2" and "em_dash \<notin> set t2" and "newline \<notin> set t2"
    and "length paras = i + 2 \<or> (i + 2 < length paras \<and> body_stop (paras ! (i + 2)))"
    and "current_chapter b = Some c" and "c < length (chapters b)"
  shows "(parse_step paras ^^ 2) (i, b) =
    (i + 2,
     b\<lparr>chapters := (chapters b)[c := (chapters b ! c)\<lparr>ch_sections :=
         ch_sections (chapters b ! c) @
           [\<lparr>sec_name = d1 @ ascii ''. '' @ strip t1, sec_body = []\<rparr>,
            \<lparr>sec_name = d2 @ ascii ''. '' @ strip t2, sec_body = []\<rparr>]\<rparr>]\<rparr>)"
proof -
  define b1 where "b1 = b\<lparr>chapters := (chapters b)[c := append_section
       \<lparr>sec_name = d1 @ ascii ''. '' @ strip t1, sec_body = []\<rparr> (chapters b ! c)]\<rparr>"
  have "section_header_match (paras ! (i + 1))"
    using assms(2,7,8) by (rule section_line_header)
  then have stop: "length paras \<le> i + 1 \<or> body_stop (paras ! (i + 1))"
    by (simp add: body_stop_def)
  have s1: "parse_step paras (i, b) = (i + 1, b1)"
    unfolding b1_def using assms(1,3,4,5,6) stop assms(12,13) by (rule section_line_step)
  have cur1: "current_chapter b1 = Some c" "c < length (chapters b1)"
    using assms(12,13) by (simp_all add: b1_def)
  have stop2: "length paras \<le> i + 1 + 1 \<or> body_stop (paras ! (i + 1 + 1))"
    using assms(11) by (auto simp: add.assoc)
  have s2: "parse_step paras (i + 1, b1) =
    (i + 1 + 1, b1\<lparr>chapters := (chapters b1)[c := append_section
       \<lparr>sec_name = d2 @ ascii ''. '' @ strip t2, sec_body = []\<rparr> (chapters b1 ! c)]\<rparr>)"
    using assms(2,7,8,9,10) stop2 cur1 by (rule section_line_step)
  have "(parse_step paras ^^ 2) (i, b) = parse_step paras (parse_step paras (i, b))"
    by (simp only: numeral_2_eq_2 funpow.simps o_apply id_apply)
  also have "\<dots> = (i + 1 + 1, b1\<lparr>chapters := (chapters b1)[c := append_section
       \<lparr>sec_name = d2 @ ascii ''. '' @ strip t2, sec_body = []\<rparr> (chapters b1 ! c)]\<rparr>)"
    by (simp only: s1 s2)
  finally show ?thesis
    using assms(13) by (simp add: b1_def append_section_def)
qed

text \<open>
  Claim C7. Two consecutive section-start lines with nothing after their dashes are each
  to produce a Section whose body is the empty string. The code does so only when a chapter
  header stands before them. The first document below holds the two lines alone: the
  preamble scan discards them and the tree has no Chapter and no Section, since the
  recovery in \<open>add_section\<close> is never reached. The second document has a chapter
  header first, and its chapter holds the two Sections, each with an empty body.
\<close>

theorem section_starts_without_chapter_dropped:
  "title_chapters (fst (to_xml_tree (ascii ''Title 1'')
     [[Some (ascii ''1. Definitions'' @ [em_dash])],
      [Some (ascii ''2. Scope'' @ [em_dash])]])) = [] \<and>
   title_chapters (fst (to_xml_tree (ascii ''Title 1'')
     [[Some (ascii ''Chapter 1'' @ [em_dash] @ ascii ''General'')],
      [Some (ascii ''1. Definitions'' @ [em_dash])],
      [Some (ascii ''2. Scope'' @ [em_dash])]])) =
     [\<lparr>ch_name = ascii ''Chapter 1.'' @ [em_dash] @ ascii ''General.'',
       ch_sections =
         [\<lparr>sec_name = ascii ''1. Definitions'', sec_body = []\<rparr>,
          \<lparr>sec_name = ascii ''2. Scope'', sec_body = []\<rparr>]\<rparr>]"
proof -
  define lc where "lc = ascii ''Chapter 1'' @ [em_dash] @ ascii ''General''"
  define l1 where "l1 = ascii ''1. Definitions'' @ [em_dash]"
  define l2 where "l2 = ascii ''2. Scope'' @ [em_dash]"
  define b0 where "b0 = \<lparr>chapters = [], current_chapter = None\<rparr>"
  have p1: "paras_of [[Some l1], [Some l2]] = [l1, l2]"
    by (simp add: paras_of_def iter_docx_paragraph_text_def run_texts_def List.map_filter_def
        l1_def l2_def str_eval re_eval)
  have p2: "paras_of [[Some lc], [Some l1], [Some l2]] = [lc, l1, l2]"
    by (simp add: paras_of_def iter_docx_paragraph_text_def run_texts_def List.map_filter_def
        lc_def l1_def l2_def str_eval re_eval)
  have c0: "chapter_head_match lc = Some (ascii ''1'', ascii ''General'')"
    by (simp add: lc_def re_eval)
  have t0: "\<not> toc_line lc" by (simp add: toc_line_def c0)
  have n: "chapter_name (ascii ''1'') (ascii ''General'') =
      ascii ''Chapter 1.'' @ [em_dash] @ ascii ''General.''"
    by (simp add: chapter_name_def str_eval re_eval)
  have c1: "chapter_head_match l1 = None" "section_inline_match l1 = None"
    "section_start_match l1 = Some (ascii ''1'', ascii ''Definitions'', [])"
    by (simp_all add: l1_def re_eval)
  have c2: "chapter_head_match l2 = None" "section_inline_match l2 = None"
    "section_start_match l2 = Some (ascii ''2'', ascii ''Scope'', [])"
    "section_header_match l2"
    by (simp_all add: l2_def re_eval)
  have st: "strip (ascii ''Definitions'') = ascii ''Definitions''"
    "strip (ascii ''Scope'') = ascii ''Scope''" "strip [] = []"
    by (simp_all add: str_eval re_eval)
  have "\<forall>l \<in> set (paras_of [[Some l1], [Some l2]]). chapter_head_match l = None"
    by (simp add: p1 c1 c2)
  then have none: "title_chapters (fst (to_xml_tree (ascii ''Title 1'') [[Some l1], [Some l2]])) = []"
    by (rule no_chapter_header_no_chapter)
  have k2: "skip_preamble [lc, l1, l2] 0 = 0"
    by (simp add: skip_preamble.simps [of _ 0] c0 t0)
  have sc1: "scan_body [lc, l1, l2] (Suc (Suc 0)) [] = (Suc (Suc 0), [])"
    by (simp add: scan_body.simps [of _ "Suc (Suc 0)"] body_stop_def c2)
  have sc2: "scan_body [lc, l1, l2] (Suc (Suc (Suc 0))) [] = (Suc (Suc (Suc 0)), [])"
    by (simp add: scan_body.simps [of _ "Suc (Suc (Suc 0))"])
  have loop2: "chapters (parse_loop [lc, l1, l2] (0, b0)) =
      [\<lparr>ch_name = ascii ''Chapter 1.'' @ [em_dash] @ ascii ''General.'',
        ch_sections = [\<lparr>sec_name = ascii ''1. Definitions'', sec_body = []\<rparr>,
          \<lparr>sec_name = ascii ''2. Scope'', sec_body = []\<rparr>]\<rparr>]"
    apply (subst parse_loop.simps)
    apply (simp add: parse_step_def c0 start_chapter_def n b0_def)
    apply (subst parse_loop.simps)
    apply (simp add: parse_step_def c1 sc1 add_section_def append_section_def st)
    apply (subst parse_loop.simps)
    apply (simp add: parse_step_def c2 sc2 add_section_def append_section_def st)
    apply (subst parse_loop.simps)
    apply (simp add: ascii_def)
    done
  have two: "title_chapters (fst (to_xml_tree (ascii ''Title 1'')
      [[Some lc], [Some l1], [Some l2]])) =
      [\<lparr>ch_name = ascii ''Chapter 1.'' @ [em_dash] @ ascii ''General.'',
        ch_sections = [\<lparr>sec_name = ascii ''1. Definitions'', sec_body = []\<rparr>,
          \<lparr>sec_name = ascii ''2. Scope'', sec_body = []\<rparr>]\<rparr>]"
    by (simp add: to_xml_tree_def Let_def split_beta p2 parse_paras_def k2
        loop2 [unfolded b0_def])
  from none two show ?thesis
    unfolding lc_def [symmetric] l1_def [symmetric] l2_def [symmetric] by (intro conjI)
qed

end
